theory Spec2Isabelle
  imports Main "HOL-Library.Multiset"
begin

section \<open>The promise package (async/promise.go)\<close>

text \<open>
  The package implements a TypeScript-like \<open>Promise[T]\<close> on goroutines and buffered
  channels. The model is an interleaving semantics: a system state holds the heap of
  promises, the local variables of running combinator closures, the pool of goroutines
  (each at a program point of the source) and a logical clock. A schedule picks the
  goroutine that takes the next step; a goroutine that is blocked on a channel, a
  wait group or a timer cannot step.
\<close>

subsection \<open>Data\<close>

type_synonym pid = nat
type_synonym fid = nat
type_synonym tid = nat

text \<open>
  Go \<open>error\<close> values. The package creates its own errors with \<open>fmt.Errorf\<close>; each
  constructor stands for one of these calls and keeps the formatted argument. \<open>Custom\<close>
  is an error supplied by the caller. The nil error is \<open>None\<close> of \<open>error option\<close>.
\<close>

datatype error =
    Custom string
  | PanicError string               \<comment> \<open>\<open>fmt.Errorf("panic: %v", r)\<close>\<close>
  | PromiseTimeout nat              \<comment> \<open>\<open>fmt.Errorf("promise timeout after %v", timeout)\<close>\<close>
  | OperationTimedOut nat           \<comment> \<open>\<open>fmt.Errorf("operation timed out after %v", duration)\<close>\<close>
  | AllRejected "error list"        \<comment> \<open>\<open>fmt.Errorf("all promises rejected: %v", errors)\<close>\<close>

datatype PromiseState = Pending | Fulfilled | Rejected

text \<open>
  \<open>type Promise[T any] struct\<close>. The three channels are created with capacity 1 and are
  lists of the buffered elements. The mutex \<open>mu\<close> has no field: each critical section of
  the source is one atomic step of the model. The fields \<open>done\<close> and \<open>value\<close> carry a
  prime because the plain names are reserved words.
\<close>

record 'v Promise =
  result :: "'v list"
  err :: "error option list"
  done' :: "bool list"
  state :: PromiseState
  value' :: 'v
  error :: "error option"

datatype 'v PromiseResult =
  PromiseResult (Status: string) (Value: 'v) (Reason: "error option")

text \<open>
  The source instantiates \<open>Promise[T]\<close> at \<open>T\<close>, at \<open>[]T\<close> (\<open>All\<close>) and at
  \<open>[]PromiseResult[T]\<close> (\<open>AllSettled\<close>); one heap holds all of them, so values have
  these three shapes. The zero value of a type parameter (\<open>var zero T\<close>, the unset
  fields of a struct literal, the elements of \<open>make\<close>) is passed as an argument \<open>z\<close>.
\<close>

datatype 't val =
    Val 't
  | Slice "'t val list"
  | Records "'t val PromiseResult list"

subsection \<open>Operations on one promise\<close>

definition String :: "PromiseState \<Rightarrow> string" where
  "String s = (case s of Pending \<Rightarrow> ''Pending'' | Fulfilled \<Rightarrow> ''Fulfilled''
                 | Rejected \<Rightarrow> ''Rejected'')"

text \<open>The struct literal of \<open>NewPromise\<close>: empty channels, \<open>state: Pending\<close>.\<close>

definition pending :: "'v \<Rightarrow> 'v Promise" where
  "pending z = \<lparr>result = [], err = [], done' = [], state = Pending, value' = z, error = None\<rparr>"

text \<open>\<open>Resolve\<close> and \<open>Reject\<close> build the struct already settled and fill the channels.\<close>

definition resolved :: "'v \<Rightarrow> 'v Promise" where
  "resolved v =
     \<lparr>result = [v], err = [], done' = [True], state = Fulfilled, value' = v, error = None\<rparr>"

definition rejected :: "'v \<Rightarrow> error option \<Rightarrow> 'v Promise" where
  "rejected z e =
     \<lparr>result = [], err = [e], done' = [True], state = Rejected, value' = z, error = e\<rparr>"

text \<open>
  What \<open>Await\<close> returns once it is past \<open><-p.done\<close>: the stored value, or the zero
  value and the stored error.
\<close>

definition stored :: "'v \<Rightarrow> 'v Promise \<Rightarrow> 'v \<times> error option" where
  "stored z p = (if state p = Fulfilled then (value' p, None) else (z, error p))"

text \<open>
  \<open>func (p *Promise[T]) Await() (T, error)\<close>. The receive \<open><-p.done\<close> takes the one
  element out of the channel; with the channel empty the call blocks (\<open>None\<close>).
\<close>

definition Await :: "'v \<Rightarrow> 'v Promise \<Rightarrow> ('v Promise \<times> 'v \<times> error option) option" where
  "Await z p = (case done' p of [] \<Rightarrow> None
                | d # ds \<Rightarrow> Some (p\<lparr>done' := ds\<rparr>, stored z p))"

definition GetState :: "'v Promise \<Rightarrow> PromiseState" where
  "GetState p = state p"

definition IsPending :: "'v Promise \<Rightarrow> bool" where
  "IsPending p = (GetState p = Pending)"

definition IsFulfilled :: "'v Promise \<Rightarrow> bool" where
  "IsFulfilled p = (GetState p = Fulfilled)"

definition IsRejected :: "'v Promise \<Rightarrow> bool" where
  "IsRejected p = (GetState p = Rejected)"

text \<open>
  A \<open>select\<close> over two receive cases: blocked while both channels are empty; with both
  ready Go picks one at random, here the schedule's choice \<open>c\<close>.
\<close>

definition select2 :: "bool \<Rightarrow> 'a list \<Rightarrow> 'b list \<Rightarrow> ('a + 'b) option" where
  "select2 c xs ys =
     (case (xs, ys) of
        ([], []) \<Rightarrow> None
      | (x # _, []) \<Rightarrow> Some (Inl x)
      | ([], y # _) \<Rightarrow> Some (Inr y)
      | (x # _, y # _) \<Rightarrow> Some (if c then Inr y else Inl x))"

subsection \<open>Goroutines\<close>

text \<open>
  The behaviour of an executor supplied by the caller, as far as the package can see it:
  it returns a pair, it panics with a payload, or it never returns.
\<close>

datatype 'v outcome = Returns 'v "error option" | Panics string | Hangs

datatype comb = CAll | CAllSettled | CRace | CAny

text \<open>
  The closures handed to \<open>NewPromise\<close>, each with its program point.
  \<^item> \<open>Compute d oc\<close>: \<open>time.Sleep(d)\<close> followed by the outcome \<open>oc\<close>; this is the closure
    of \<open>Sleep\<close> and of \<open>Timeout\<close>, and stands for any executor of the caller.
  \<^item> \<open>Sleeping w oc\<close>: inside \<open>time.Sleep\<close> until the clock reaches \<open>w\<close>.
  \<^item> \<open>ThenFn\<close>, \<open>CatchFn\<close>: the closures of \<open>Then\<close> and \<open>Catch\<close>, at their \<open>select\<close>.
  \<^item> \<open>Start k ps z\<close>: the closure of \<open>All\<close>, \<open>AllSettled\<close>, \<open>Race\<close> or \<open>Any\<close> at its
    first line; \<open>Join k f z\<close>: the same closure after its \<open>for\<close> loop, at
    \<open>wg.Wait()\<close>, the \<open>select\<close> or the receive, with its local variables in frame \<open>f\<close>.
\<close>

datatype 't executor =
    Compute nat "'t val outcome"
  | Sleeping nat "'t val outcome"
  | ThenFn pid "('t val \<Rightarrow> 't val) option" "(error option \<Rightarrow> 't val) option" "'t val"
  | CatchFn pid "(error option \<Rightarrow> 't val) option" "'t val"
  | Start comb "pid list" "'t val"
  | Join comb fid "'t val"

text \<open>
  A goroutine at a program point.
  \<^item> \<open>Producer p ex\<close>: the goroutine of \<open>NewPromise\<close> inside \<open>executor()\<close>.
  \<^item> \<open>Settling p v e\<close>: the executor has returned \<open>(v, e)\<close>; next is the critical
    section that writes \<open>state\<close> and \<open>value\<close> or \<open>error\<close>.
  \<^item> \<open>Recovering p r\<close>: the executor has panicked with payload \<open>r\<close>; next is the critical
    section of the deferred \<open>recover\<close>.
  \<^item> \<open>SendErr p e\<close>, \<open>SendResult p v\<close>, \<open>SendDone p\<close>: at \<open>p.err <- err\<close>,
    \<open>p.result <- result\<close>, \<open>p.done <- true\<close>.
  \<^item> \<open>AwaitCall z p\<close>: a caller inside \<open>p.Await()\<close>; \<open>Returned v e\<close>: the call has
    returned \<open>(v, e)\<close>.
  \<^item> \<open>AwaitWithTimeoutCall z p d\<close>: a caller entering \<open>p.AwaitWithTimeout(d)\<close>;
    \<open>AwaitWithTimeoutSelect z p w d\<close>: at its \<open>select\<close>, the timer firing at \<open>w\<close>.
  \<^item> \<open>Child k f i p z\<close>: the goroutine a combinator starts for input \<open>i\<close>, at
    \<open>p.Await()\<close>; \<open>Deliver k f i v e z\<close>: the same goroutine after \<open>Await\<close> returned.
  \<^item> \<open>Closer f\<close>: the goroutine of \<open>Any\<close> that runs \<open>wg.Wait(); close(result)\<close>.
\<close>

datatype 't thread =
    Producer pid "'t executor"
  | Settling pid "'t val" "error option"
  | Recovering pid string
  | SendErr pid "error option"
  | SendResult pid "'t val"
  | SendDone pid
  | Exited
  | AwaitCall "'t val" pid
  | Returned "'t val" "error option"
  | AwaitWithTimeoutCall "'t val" pid nat
  | AwaitWithTimeoutSelect "'t val" pid nat nat
  | Child comb fid nat pid "'t val"
  | Deliver comb fid nat "'t val" "error option" "'t val"
  | Closer fid

text \<open>
  The local variables of a combinator closure, shared with the goroutines it starts:
  \<open>results\<close> and \<open>errors\<close> of \<open>All\<close>, \<open>results\<close> of \<open>AllSettled\<close> (here \<open>settled\<close>),
  the wait group counter \<open>wg\<close>, the channels \<open>result\<close> and \<open>err\<close> of \<open>Race\<close> and
  \<open>Any\<close> (capacity 1) with the flag set by \<open>close(result)\<close>, and the slice \<open>errors\<close> of
  \<open>Any\<close> (here \<open>errs\<close>). A closure uses the fields of its own combinator only.
\<close>

record 't locals =
  results :: "'t val list"
  errors :: "error option list"
  settled :: "'t val PromiseResult list"
  wg :: nat
  result_ch :: "'t val list"
  err_ch :: "error option list"
  closed :: bool
  errs :: "error list"

record 't sys =
  heap :: "pid \<Rightarrow> 't val Promise"
  nextp :: pid
  frames :: "fid \<Rightarrow> 't locals"
  nextf :: fid
  threads :: "tid \<Rightarrow> 't thread"
  nextt :: tid
  clock :: nat

definition new_locals :: "nat \<Rightarrow> 't val \<Rightarrow> 't locals" where
  "new_locals n z =
     \<lparr>results = replicate n z, errors = replicate n None,
      settled = replicate n (PromiseResult [] z None), wg = n,
      result_ch = [], err_ch = [], closed = False, errs = []\<rparr>"

definition init :: "'t sys" where
  "init = \<lparr>heap = (\<lambda>_. pending (Slice [])), nextp = 0,
           frames = (\<lambda>_. new_locals 0 (Slice [])), nextf = 0,
           threads = (\<lambda>_. Exited), nextt = 0, clock = 0\<rparr>"

text \<open>The \<open>go\<close> statement: the new goroutines take the next free slots of the pool.\<close>

definition spawn :: "'t thread list \<Rightarrow> 't sys \<Rightarrow> 't sys" where
  "spawn ts s =
     s\<lparr>threads := (\<lambda>t. if nextt s \<le> t \<and> t < nextt s + length ts
                         then ts ! (t - nextt s) else threads s t),
       nextt := nextt s + length ts\<rparr>"

definition upd :: "pid \<Rightarrow> ('t val Promise \<Rightarrow> 't val Promise) \<Rightarrow> 't sys \<Rightarrow> 't sys" where
  "upd p f s = s\<lparr>heap := (heap s)(p := f (heap s p))\<rparr>"

definition updf :: "fid \<Rightarrow> ('t locals \<Rightarrow> 't locals) \<Rightarrow> 't sys \<Rightarrow> 't sys" where
  "updf f g s = s\<lparr>frames := (frames s)(f := g (frames s f))\<rparr>"

text \<open>
  What a started goroutine of a combinator does with the pair \<open>(v, e)\<close> that \<open>Await\<close>
  returned, \<open>wg.Done()\<close> included (\<open>Race\<close> has no wait group):
  \<^item> \<open>All\<close>: \<open>errors[index] = err\<close> or \<open>results[index] = result\<close>;
  \<^item> \<open>AllSettled\<close>: \<open>results[index]\<close> becomes the record of the outcome;
  \<^item> \<open>Race\<close>: a send on \<open>err\<close> or on \<open>result\<close> that is dropped when the channel is full
    (\<open>select\<close> with \<open>default\<close>);
  \<^item> \<open>Any\<close>: \<open>errors = append(errors, err)\<close>, or the same non-blocking send on \<open>result\<close>.
\<close>

fun deliver :: "comb \<Rightarrow> nat \<Rightarrow> 't val \<Rightarrow> error option \<Rightarrow> 't val \<Rightarrow> 't locals \<Rightarrow> 't locals" where
  "deliver CAll i v e z l =
     (case e of
        Some _ \<Rightarrow> l\<lparr>errors := (errors l)[i := e], wg := wg l - 1\<rparr>
      | None \<Rightarrow> l\<lparr>results := (results l)[i := v], wg := wg l - 1\<rparr>)"
| "deliver CAllSettled i v e z l =
     (case e of
        Some _ \<Rightarrow> l\<lparr>settled := (settled l)[i := PromiseResult ''rejected'' z e], wg := wg l - 1\<rparr>
      | None \<Rightarrow> l\<lparr>settled := (settled l)[i := PromiseResult ''fulfilled'' v None], wg := wg l - 1\<rparr>)"
| "deliver CRace i v e z l =
     (case e of
        Some _ \<Rightarrow> (if err_ch l = [] then l\<lparr>err_ch := [e]\<rparr> else l)
      | None \<Rightarrow> (if result_ch l = [] then l\<lparr>result_ch := [v]\<rparr> else l))"
| "deliver CAny i v e z l =
     (case e of
        Some x \<Rightarrow> l\<lparr>errs := errs l @ [x], wg := wg l - 1\<rparr>
      | None \<Rightarrow> (if result_ch l = [] then l\<lparr>result_ch := [v], wg := wg l - 1\<rparr>
                 else l\<lparr>wg := wg l - 1\<rparr>))"

text \<open>
  The rest of a combinator closure after its \<open>for\<close> loop; \<open>None\<close> while it is blocked.
  \<^item> \<open>All\<close>: \<open>wg.Wait()\<close>, then the first non-nil entry of \<open>errors\<close> with a nil slice, or
    \<open>results\<close>;
  \<^item> \<open>AllSettled\<close>: \<open>wg.Wait()\<close>, then \<open>results, nil\<close>;
  \<^item> \<open>Race\<close>: the \<open>select\<close> over \<open>result\<close> and \<open>err\<close>;
  \<^item> \<open>Any\<close>: \<open>res, ok := <-result\<close>, which yields a buffered value first and fails
    only on the closed, empty channel.
\<close>

fun join :: "comb \<Rightarrow> bool \<Rightarrow> 't val \<Rightarrow> 't locals \<Rightarrow> (('t val \<times> error option) \<times> 't locals) option" where
  "join CAll c z l =
     (if wg l = 0
      then Some ((case find (\<lambda>e. e \<noteq> None) (errors l) of
                    Some e \<Rightarrow> (Slice [], e)
                  | None \<Rightarrow> (Slice (results l), None)), l)
      else None)"
| "join CAllSettled c z l =
     (if wg l = 0 then Some ((Records (settled l), None), l) else None)"
| "join CRace c z l =
     (case select2 c (result_ch l) (err_ch l) of
        None \<Rightarrow> None
      | Some (Inl res) \<Rightarrow> Some ((res, None), l\<lparr>result_ch := tl (result_ch l)\<rparr>)
      | Some (Inr e) \<Rightarrow> Some ((z, e), l\<lparr>err_ch := tl (err_ch l)\<rparr>))"
| "join CAny c z l =
     (case result_ch l of
        res # rest \<Rightarrow> Some ((res, None), l\<lparr>result_ch := rest\<rparr>)
      | [] \<Rightarrow> (if closed l then Some ((z, Some (AllRejected (errs l))), l) else None))"

text \<open>
  One step of a goroutine: its next program point and the new system state, or \<open>None\<close>
  when it is blocked or has finished. The \<open>for\<close> loop of a combinator, which only adds
  to the wait group and starts goroutines, is one step.
\<close>

fun exec :: "bool \<Rightarrow> 't thread \<Rightarrow> 't sys \<Rightarrow> ('t thread \<times> 't sys) option" where
  "exec c (Producer p (Compute d oc)) s = Some (Producer p (Sleeping (clock s + d) oc), s)"
| "exec c (Producer p (Sleeping w oc)) s =
     (if clock s < w then None
      else (case oc of
              Returns v e \<Rightarrow> Some (Settling p v e, s)
            | Panics r \<Rightarrow> Some (Recovering p r, s)
            | Hangs \<Rightarrow> None))"
| "exec c (Producer p (ThenFn q onFulfilled onRejected z)) s =
     (case select2 c (result (heap s q)) (err (heap s q)) of
        None \<Rightarrow> None
      | Some (Inl r) \<Rightarrow>
          Some (Settling p (case onFulfilled of Some f \<Rightarrow> f r | None \<Rightarrow> z) None,
                upd q (\<lambda>P. P\<lparr>result := tl (result P)\<rparr>) s)
      | Some (Inr e) \<Rightarrow>
          Some ((case onRejected of Some g \<Rightarrow> Settling p (g e) None | None \<Rightarrow> Settling p z e),
                upd q (\<lambda>P. P\<lparr>err := tl (err P)\<rparr>) s))"
| "exec c (Producer p (CatchFn q onRejected z)) s =
     (case select2 c (result (heap s q)) (err (heap s q)) of
        None \<Rightarrow> None
      | Some (Inl r) \<Rightarrow> Some (Settling p r None, upd q (\<lambda>P. P\<lparr>result := tl (result P)\<rparr>) s)
      | Some (Inr e) \<Rightarrow>
          Some ((case onRejected of Some g \<Rightarrow> Settling p (g e) None | None \<Rightarrow> Settling p z e),
                upd q (\<lambda>P. P\<lparr>err := tl (err P)\<rparr>) s))"
| "exec c (Producer p (Start k ps z)) s =
     Some (Producer p (Join k (nextf s) z),
           spawn (map (\<lambda>i. Child k (nextf s) i (ps ! i) z) [0..<length ps]
                    @ (if k = CAny then [Closer (nextf s)] else []))
             (s\<lparr>frames := (frames s)(nextf s := new_locals (length ps) z),
                nextf := Suc (nextf s)\<rparr>))"
| "exec c (Producer p (Join k f z)) s =
     (case join k c z (frames s f) of
        None \<Rightarrow> None
      | Some ((v, e), l) \<Rightarrow> Some (Settling p v e, updf f (\<lambda>_. l) s))"
| "exec c (Settling p v e) s =
     (case e of
        Some _ \<Rightarrow> Some (SendErr p e, upd p (\<lambda>P. P\<lparr>state := Rejected, error := e\<rparr>) s)
      | None \<Rightarrow> Some (SendResult p v, upd p (\<lambda>P. P\<lparr>state := Fulfilled, value' := v\<rparr>) s))"
| "exec c (Recovering p r) s =
     Some (SendErr p (Some (PanicError r)),
           upd p (\<lambda>P. P\<lparr>state := Rejected, error := Some (PanicError r)\<rparr>) s)"
| "exec c (SendErr p e) s =
     (if err (heap s p) = [] then Some (SendDone p, upd p (\<lambda>P. P\<lparr>err := [e]\<rparr>) s) else None)"
| "exec c (SendResult p v) s =
     (if result (heap s p) = [] then Some (SendDone p, upd p (\<lambda>P. P\<lparr>result := [v]\<rparr>) s)
      else None)"
| "exec c (SendDone p) s =
     (if done' (heap s p) = [] then Some (Exited, upd p (\<lambda>P. P\<lparr>done' := [True]\<rparr>) s) else None)"
| "exec c Exited s = None"
| "exec c (AwaitCall z p) s =
     (case Await z (heap s p) of
        None \<Rightarrow> None
      | Some (P, v, e) \<Rightarrow> Some (Returned v e, upd p (\<lambda>_. P) s))"
| "exec c (Returned v e) s = None"
| "exec c (AwaitWithTimeoutCall z p d) s = Some (AwaitWithTimeoutSelect z p (clock s + d) d, s)"
| "exec c (AwaitWithTimeoutSelect z p w d) s =
     (case select2 c (done' (heap s p)) (if w \<le> clock s then [()] else []) of
        None \<Rightarrow> None
      | Some (Inl _) \<Rightarrow> Some (AwaitCall z p, upd p (\<lambda>P. P\<lparr>done' := tl (done' P)\<rparr>) s)
      | Some (Inr _) \<Rightarrow> Some (Returned z (Some (PromiseTimeout d)), s))"
| "exec c (Child k f i p z) s =
     (case Await z (heap s p) of
        None \<Rightarrow> None
      | Some (P, v, e) \<Rightarrow> Some (Deliver k f i v e z, upd p (\<lambda>_. P) s))"
| "exec c (Deliver k f i v e z) s = Some (Exited, updf f (deliver k i v e z) s)"
| "exec c (Closer f) s =
     (if wg (frames s f) = 0 then Some (Exited, updf f (\<lambda>l. l\<lparr>closed := True\<rparr>) s) else None)"

subsection \<open>Schedules\<close>

text \<open>
  \<open>Tick\<close> lets one unit of time pass; \<open>Run t c\<close> lets goroutine \<open>t\<close> take a step, with
  \<open>c\<close> the random choice of a \<open>select\<close>. Running a goroutine that cannot step changes
  nothing.
\<close>

datatype action = Tick | Run tid bool

fun step :: "action \<Rightarrow> 't sys \<Rightarrow> 't sys" where
  "step Tick s = s\<lparr>clock := Suc (clock s)\<rparr>"
| "step (Run t c) s =
     (case exec c (threads s t) s of
        None \<Rightarrow> s
      | Some (th, s') \<Rightarrow> s'\<lparr>threads := (threads s')(t := th)\<rparr>)"

fun run :: "'t sys \<Rightarrow> action list \<Rightarrow> 't sys" where
  "run s [] = s"
| "run s (a # as) = run (step a s) as"

text \<open>No goroutine of the pool can take a step, whatever a \<open>select\<close> would choose.\<close>

definition quiescent :: "'t sys \<Rightarrow> bool" where
  "quiescent s = (\<forall>t<nextt s. \<forall>c. exec c (threads s t) s = None)"

subsection \<open>The constructors and combinators\<close>

text \<open>
  Each function of the package that returns a promise allocates it on the heap and
  returns its address with the new system state.
\<close>

definition NewPromise :: "'t val \<Rightarrow> 't executor \<Rightarrow> 't sys \<Rightarrow> pid \<times> 't sys" where
  "NewPromise z executor s =
     (nextp s, spawn [Producer (nextp s) executor]
                 (s\<lparr>heap := (heap s)(nextp s := pending z), nextp := Suc (nextp s)\<rparr>))"

definition Resolve :: "'t val \<Rightarrow> 't sys \<Rightarrow> pid \<times> 't sys" where
  "Resolve v s = (nextp s, s\<lparr>heap := (heap s)(nextp s := resolved v), nextp := Suc (nextp s)\<rparr>)"

definition Reject :: "'t val \<Rightarrow> error option \<Rightarrow> 't sys \<Rightarrow> pid \<times> 't sys" where
  "Reject z e s =
     (nextp s, s\<lparr>heap := (heap s)(nextp s := rejected z e), nextp := Suc (nextp s)\<rparr>)"

definition Then :: "'t val \<Rightarrow> pid \<Rightarrow> ('t val \<Rightarrow> 't val) option \<Rightarrow> (error option \<Rightarrow> 't val) option
    \<Rightarrow> 't sys \<Rightarrow> pid \<times> 't sys" where
  "Then z p onFulfilled onRejected = NewPromise z (ThenFn p onFulfilled onRejected z)"

definition Catch :: "'t val \<Rightarrow> pid \<Rightarrow> (error option \<Rightarrow> 't val) option \<Rightarrow> 't sys \<Rightarrow> pid \<times> 't sys" where
  "Catch z p onRejected = NewPromise z (CatchFn p onRejected z)"

definition All :: "'t val \<Rightarrow> pid list \<Rightarrow> 't sys \<Rightarrow> pid \<times> 't sys" where
  "All z promises = NewPromise (Slice []) (Start CAll promises z)"

definition AllSettled :: "'t val \<Rightarrow> pid list \<Rightarrow> 't sys \<Rightarrow> pid \<times> 't sys" where
  "AllSettled z promises = NewPromise (Records []) (Start CAllSettled promises z)"

definition Race :: "'t val \<Rightarrow> pid list \<Rightarrow> 't sys \<Rightarrow> pid \<times> 't sys" where
  "Race z promises = NewPromise z (Start CRace promises z)"

definition Any :: "'t val \<Rightarrow> pid list \<Rightarrow> 't sys \<Rightarrow> pid \<times> 't sys" where
  "Any z promises = NewPromise z (Start CAny promises z)"

definition Sleep :: "'t val \<Rightarrow> nat \<Rightarrow> 't val \<Rightarrow> 't sys \<Rightarrow> pid \<times> 't sys" where
  "Sleep z duration v = NewPromise z (Compute duration (Returns v None))"

definition Timeout :: "'t val \<Rightarrow> pid \<Rightarrow> nat \<Rightarrow> 't sys \<Rightarrow> pid \<times> 't sys" where
  "Timeout z promise duration s =
     (let (q, s') = NewPromise z (Compute duration
                      (Returns z (Some (OperationTimedOut duration)))) s
      in Race z [promise, q] s')"

text \<open>A caller that runs a call of \<open>Await\<close> or \<open>AwaitWithTimeout\<close> is a goroutine too.\<close>

definition go :: "'t thread \<Rightarrow> 't sys \<Rightarrow> tid \<times> 't sys" where
  "go th s = (nextt s, spawn [th] s)"

section \<open>Scenarios\<close>

text \<open>
  The systems the properties are about, built with the functions of the package from the
  empty system, and the invariants of their reachable states.
\<close>

subsection \<open>Two calls of \<open>Await\<close> on one resolved promise\<close>

definition two_awaits :: "'t val \<Rightarrow> 't val \<Rightarrow> 't sys" where
  "two_awaits z v =
     (let (p, s) = Resolve v init;
          (a, s) = go (AwaitCall z p) s;
          (b, s) = go (AwaitCall z p) s
      in s)"

definition two_awaits_inv :: "'t val \<Rightarrow> 't val \<Rightarrow> 't sys \<Rightarrow> bool" where
  "two_awaits_inv z v s \<longleftrightarrow>
     (\<forall>t. 2 \<le> t \<longrightarrow> threads s t = Exited) \<and>
     ((threads s 0 = AwaitCall z 0 \<and> threads s 1 = AwaitCall z 0 \<and> heap s 0 = resolved v) \<or>
      (threads s 0 = Returned v None \<and> threads s 1 = AwaitCall z 0 \<and> done' (heap s 0) = []) \<or>
      (threads s 0 = AwaitCall z 0 \<and> threads s 1 = Returned v None \<and> done' (heap s 0) = []))"

subsection \<open>\<open>AwaitWithTimeout\<close> on a resolved promise\<close>

definition timed_await :: "'t val \<Rightarrow> 't val \<Rightarrow> nat \<Rightarrow> 't sys" where
  "timed_await z v d =
     (let (p, s) = Resolve v init;
          (a, s) = go (AwaitWithTimeoutCall z p d) s
      in s)"

definition timed_await_inv :: "'t val \<Rightarrow> 't val \<Rightarrow> nat \<Rightarrow> 't sys \<Rightarrow> bool" where
  "timed_await_inv z v d s \<longleftrightarrow>
     (\<forall>t. 1 \<le> t \<longrightarrow> threads s t = Exited) \<and>
     ((threads s 0 = AwaitWithTimeoutCall z 0 d \<and> heap s 0 = resolved v) \<or>
      (\<exists>w. threads s 0 = AwaitWithTimeoutSelect z 0 w d \<and> heap s 0 = resolved v) \<or>
      (threads s 0 = AwaitCall z 0 \<and> done' (heap s 0) = []) \<or>
      (threads s 0 = Returned z (Some (PromiseTimeout d)) \<and> heap s 0 = resolved v))"

subsection \<open>Two applications of \<open>Catch\<close> to one resolved promise\<close>

definition two_catches :: "'t val \<Rightarrow> 't val \<Rightarrow> 't sys" where
  "two_catches z v =
     (let (p, s) = Resolve v init;
          (q1, s) = Catch z p None s;
          (q2, s) = Catch z p None s
      in s)"

text \<open>The goroutine of a derived promise \<open>q\<close> once its \<open>select\<close> has received \<open>v\<close>.\<close>

definition past_select :: "pid \<Rightarrow> 't val \<Rightarrow> 't thread \<Rightarrow> bool" where
  "past_select q v th \<longleftrightarrow>
     th = Settling q v None \<or> th = SendResult q v \<or> th = SendDone q \<or> th = Exited"

definition two_catches_inv :: "'t val \<Rightarrow> 't val \<Rightarrow> 't sys \<Rightarrow> bool" where
  "two_catches_inv z v s \<longleftrightarrow>
     (\<forall>t. 2 \<le> t \<longrightarrow> threads s t = Exited) \<and> err (heap s 0) = [] \<and>
     ((threads s 0 = Producer 1 (CatchFn 0 None z) \<and> threads s 1 = Producer 2 (CatchFn 0 None z) \<and>
       result (heap s 0) = [v] \<and> state (heap s 1) = Pending \<and> state (heap s 2) = Pending) \<or>
      (past_select 1 v (threads s 0) \<and> threads s 1 = Producer 2 (CatchFn 0 None z) \<and>
       result (heap s 0) = [] \<and> state (heap s 2) = Pending) \<or>
      (threads s 0 = Producer 1 (CatchFn 0 None z) \<and> past_select 2 v (threads s 1) \<and>
       result (heap s 0) = [] \<and> state (heap s 1) = Pending))"

subsection \<open>\<open>Race\<close> without inputs, and a call of \<open>Await\<close> on it\<close>

definition race_empty :: "'t val \<Rightarrow> 't sys" where
  "race_empty z =
     (let (q, s) = Race z [] init;
          (a, s) = go (AwaitCall z q) s
      in s)"

definition race_empty_inv :: "'t val \<Rightarrow> 't sys \<Rightarrow> bool" where
  "race_empty_inv z s \<longleftrightarrow>
     (\<forall>t. 2 \<le> t \<longrightarrow> threads s t = Exited) \<and> heap s 0 = pending z \<and>
     threads s 1 = AwaitCall z 0 \<and>
     (threads s 0 = Producer 0 (Start CRace [] z) \<or>
      (\<exists>f. threads s 0 = Producer 0 (Join CRace f z) \<and>
        result_ch (frames s f) = [] \<and> err_ch (frames s f) = []))"

subsection \<open>The goroutine that settles a promise\<close>

text \<open>
  The promise a goroutine is going to settle: the goroutine of \<open>NewPromise\<close> before its
  critical section.
\<close>

fun writer :: "'t thread \<Rightarrow> pid option" where
  "writer (Producer p ex) = Some p"
| "writer (Settling p v e) = Some p"
| "writer (Recovering p r) = Some p"
| "writer _ = None"

text \<open>
  Every promise with a goroutine that is going to settle it is allocated and
  \<open>Pending\<close>, and has one such goroutine only.
\<close>

definition single_writer :: "'t sys \<Rightarrow> bool" where
  "single_writer s \<longleftrightarrow>
     (\<forall>t p. writer (threads s t) = Some p \<longrightarrow>
        p < nextp s \<and> t < nextt s \<and> state (heap s p) = Pending \<and>
        (\<forall>t'. writer (threads s t') = Some p \<longrightarrow> t' = t))"

text \<open>
  The states a program can reach: it starts from the empty system, creates promises with
  \<open>NewPromise\<close> (all combinators do), \<open>Resolve\<close> and \<open>Reject\<close>, starts callers
  of the waiting operations, and the goroutines take steps in any order.
\<close>

inductive reachable :: "'t sys \<Rightarrow> bool" where
  r_init: "reachable init"
| r_new: "reachable s \<Longrightarrow> reachable (snd (NewPromise z ex s))"
| r_resolve: "reachable s \<Longrightarrow> reachable (snd (Resolve v s))"
| r_reject: "reachable s \<Longrightarrow> reachable (snd (Reject z e s))"
| r_go: "reachable s \<Longrightarrow> writer th = None \<Longrightarrow> reachable (snd (go th s))"
| r_step: "reachable s \<Longrightarrow> reachable (step a s)"

text \<open>The settlement of a promise: its state, value and error.\<close>

definition core :: "'v Promise \<Rightarrow> PromiseState \<times> 'v \<times> error option" where
  "core P = (state P, value' P, error P)"

subsection \<open>Remaining work\<close>

text \<open>
  An upper bound on the steps a goroutine can still take (and, while it sleeps, on the
  ticks it waits for) at clock \<open>c\<close>; the goroutines a combinator closure will start are
  counted with the closure.
\<close>

fun todo :: "nat \<Rightarrow> 't thread \<Rightarrow> nat" where
  "todo c (Producer p (Compute d oc)) = d + 6"
| "todo c (Producer p (Sleeping w oc)) = (w - c) + 5"
| "todo c (Producer p (ThenFn q f g z)) = 5"
| "todo c (Producer p (CatchFn q g z)) = 5"
| "todo c (Producer p (Start k ps z)) = 2 * length ps + 7"
| "todo c (Producer p (Join k f z)) = 5"
| "todo c (Settling p v e) = 4"
| "todo c (Recovering p r) = 4"
| "todo c (SendErr p e) = 3"
| "todo c (SendResult p v) = 3"
| "todo c (SendDone p) = 2"
| "todo c Exited = 0"
| "todo c (AwaitCall z p) = 1"
| "todo c (Returned v e) = 0"
| "todo c (AwaitWithTimeoutCall z p d) = 3"
| "todo c (AwaitWithTimeoutSelect z p w d) = 2"
| "todo c (Child k f i p z) = 2"
| "todo c (Deliver k f i v e z) = 1"
| "todo c (Closer f) = 1"

subsection \<open>A producer that panics, and a call of \<open>Await\<close> on its promise\<close>




subsection \<open>A combinator over promises that no goroutine settles any more\<close>

text \<open>
  A system whose heap holds the promises \<open>0, \<dots>, n - 1\<close> in the states \<open>h\<close> gives them,
  with no goroutine: each promise has been settled before (its producer has ended, or it
  was made by \<open>Resolve\<close> or \<open>Reject\<close>) or will never be.
\<close>

definition with_heap :: "(pid \<Rightarrow> 't val Promise) \<Rightarrow> pid \<Rightarrow> 't sys" where
  "with_heap h n = init\<lparr>heap := h, nextp := n\<rparr>"

text \<open>What \<open>Await\<close> returns for input \<open>i\<close> of the combinator.\<close>

definition answer :: "'t val \<Rightarrow> (pid \<Rightarrow> 't val Promise) \<Rightarrow> pid list \<Rightarrow> nat \<Rightarrow> 't val \<times> error option" where
  "answer z h ps i = stored z (h (ps ! i))"

text \<open>
  The promise \<open>NewPromise\<close> has allocated, after the critical section, after the send on
  \<open>result\<close> or \<open>err\<close>, and after the send on \<open>done\<close>, for an executor that returned
  \<open>(v, e)\<close>.
\<close>

definition settled_as :: "'v \<Rightarrow> 'v \<Rightarrow> error option \<Rightarrow> 'v Promise" where
  "settled_as zk v e =
     (case e of None \<Rightarrow> (pending zk)\<lparr>state := Fulfilled, value' := v\<rparr>
              | Some _ \<Rightarrow> (pending zk)\<lparr>state := Rejected, error := e\<rparr>)"

definition published :: "'v \<Rightarrow> 'v \<Rightarrow> error option \<Rightarrow> 'v Promise" where
  "published zk v e =
     (case e of None \<Rightarrow> (settled_as zk v e)\<lparr>result := [v]\<rparr>
              | Some _ \<Rightarrow> (settled_as zk v e)\<lparr>err := [e]\<rparr>)"

definition signalled :: "'v \<Rightarrow> 'v \<Rightarrow> error option \<Rightarrow> 'v Promise" where
  "signalled zk v e = (published zk v e)\<lparr>done' := [True]\<rparr>"

text \<open>
  The goroutine of \<open>NewPromise\<close> for promise \<open>n\<close> from the return of the executor on,
  with the promise as it is at each program point.
\<close>

definition out_phase :: "pid \<Rightarrow> 't val \<Rightarrow> 't val \<Rightarrow> error option \<Rightarrow> 't thread \<Rightarrow> 't val Promise \<Rightarrow> bool" where
  "out_phase n zk v e th P \<longleftrightarrow>
     (th = Settling n v e \<and> P = pending zk) \<or>
     (th = (case e of None \<Rightarrow> SendResult n v | Some _ \<Rightarrow> SendErr n e) \<and> P = settled_as zk v e) \<or>
     (th = SendDone n \<and> P = published zk v e) \<or>
     (th = Exited \<and> P = signalled zk v e)"

text \<open>
  The goroutine started for input \<open>i\<close>: at \<open>Await\<close> with the input's \<open>done\<close> channel
  untouched, or past it (the channel held a signal), holding the input's answer or
  finished.
\<close>

definition child_ok :: "comb \<Rightarrow> 't val \<Rightarrow> (pid \<Rightarrow> 't val Promise) \<Rightarrow> pid list \<Rightarrow> 't sys \<Rightarrow> nat \<Rightarrow> bool" where
  "child_ok k z h ps s i \<longleftrightarrow>
     (threads s (Suc i) = Child k 0 i (ps ! i) z \<and> done' (heap s (ps ! i)) = done' (h (ps ! i))) \<or>
     (done' (h (ps ! i)) \<noteq> [] \<and>
      (threads s (Suc i) = Deliver k 0 i (fst (answer z h ps i)) (snd (answer z h ps i)) z \<or>
       threads s (Suc i) = Exited))"

text \<open>The slot after the inputs' goroutines: the closer of \<open>Any\<close>, or nothing.\<close>

definition closer_ok :: "comb \<Rightarrow> pid list \<Rightarrow> 't sys \<Rightarrow> bool" where
  "closer_ok k ps s \<longleftrightarrow>
     threads s (Suc (length ps)) = Exited \<or>
     (k = CAny \<and> threads s (Suc (length ps)) = Closer 0)"

text \<open>The inputs whose goroutine has finished.\<close>

definition finished :: "pid list \<Rightarrow> 't sys \<Rightarrow> nat set" where
  "finished ps s = {i. i < length ps \<and> threads s (Suc i) = Exited}"

text \<open>
  The invariant of a combinator \<open>k\<close> called on the inputs \<open>ps\<close> in \<open>with_heap h n\<close>. The
  new promise is \<open>n\<close>, its goroutine is 0, the goroutine of input \<open>i\<close> is \<open>i + 1\<close>, and
  the one after them is the closer of \<open>Any\<close>. \<open>L\<close> relates the local variables to the
  set of finished inputs and to whether the closer has run, while the closure is still
  waiting; \<open>R\<close> holds of the pair the closure returns.
\<close>

definition fan_inv ::
  "(nat set \<Rightarrow> bool \<Rightarrow> 't locals \<Rightarrow> bool) \<Rightarrow> ('t val \<Rightarrow> error option \<Rightarrow> bool) \<Rightarrow>
   comb \<Rightarrow> 't val \<Rightarrow> 't val \<Rightarrow> (pid \<Rightarrow> 't val Promise) \<Rightarrow> pid \<Rightarrow> pid list \<Rightarrow> 't sys \<Rightarrow> bool" where
  "fan_inv L R k zk z h n ps s \<longleftrightarrow>
     (\<forall>t. length ps + 1 < t \<longrightarrow> threads s t = Exited) \<and>
     (\<forall>p. p \<noteq> n \<longrightarrow> core (heap s p) = core (h p)) \<and>
     ((threads s 0 = Producer n (Start k ps z) \<and> (\<forall>t. 0 < t \<longrightarrow> threads s t = Exited) \<and>
       (\<forall>p. p \<noteq> n \<longrightarrow> heap s p = h p) \<and> heap s n = pending zk \<and>
       nextf s = 0 \<and> nextt s = 1) \<or>
      ((\<forall>i<length ps. child_ok k z h ps s i) \<and>
       closer_ok k ps s \<and>
       ((threads s 0 = Producer n (Join k 0 z) \<and> heap s n = pending zk \<and>
         L (finished ps s) (threads s (Suc (length ps)) = Exited) (frames s 0)) \<or>
        (\<exists>v e. R v e \<and> out_phase n zk v e (threads s 0) (heap s n)))))"

text \<open>The remaining work of the goroutines of the combinator.\<close>

definition fan_todo :: "pid list \<Rightarrow> 't sys \<Rightarrow> nat" where
  "fan_todo ps s =
     todo (clock s) (threads s 0) + (\<Sum>i<length ps. todo (clock s) (threads s (Suc i)))
       + todo (clock s) (threads s (Suc (length ps)))"

subsection \<open>\<open>AllSettled\<close> over settled inputs\<close>

text \<open>The record \<open>AllSettled\<close> stores for an input whose \<open>Await\<close> returned \<open>(v, e)\<close>.\<close>

definition settle_record :: "'t val \<Rightarrow> 't val \<times> error option \<Rightarrow> 't val PromiseResult" where
  "settle_record z r =
     (case snd r of Some _ \<Rightarrow> PromiseResult ''rejected'' z (snd r)
                  | None \<Rightarrow> PromiseResult ''fulfilled'' (fst r) None)"

text \<open>
  The local variables of \<open>AllSettled\<close> while it waits: the slots of the finished inputs
  hold their records, and the wait group counts the others.
\<close>

definition settled_locals ::
  "'t val \<Rightarrow> (pid \<Rightarrow> 't val Promise) \<Rightarrow> pid list \<Rightarrow> nat set \<Rightarrow> bool \<Rightarrow> 't locals \<Rightarrow> bool" where
  "settled_locals z h ps X b l \<longleftrightarrow>
     X \<subseteq> {..<length ps} \<and> length (settled l) = length ps \<and>
     (\<forall>i\<in>X. settled l ! i = settle_record z (answer z h ps i)) \<and>
     wg l + card X = length ps"

subsection \<open>\<open>All\<close> over inputs that no goroutine settles any more\<close>

text \<open>
  What the closure of \<open>All\<close> returns once every started goroutine has stored the pair
  its \<open>Await\<close> returned: the first non-nil error in input order with a nil slice, or
  the values in input order.
\<close>

definition all_result :: "('t val \<times> error option) list \<Rightarrow> 't val \<times> error option" where
  "all_result rs =
     (case find (\<lambda>e. e \<noteq> None) (map snd rs) of
        Some e \<Rightarrow> (Slice [], e)
      | None \<Rightarrow> (Slice (map fst rs), None))"

text \<open>
  The local variables of \<open>All\<close> while it waits: only inputs with a completion signal have
  finished, their slots of \<open>errors\<close> and \<open>results\<close> are filled, the other slots of
  \<open>errors\<close> are nil, and the wait group counts the inputs that have not finished.
\<close>

definition all_locals ::
  "'t val \<Rightarrow> (pid \<Rightarrow> 't val Promise) \<Rightarrow> pid list \<Rightarrow> nat set \<Rightarrow> bool \<Rightarrow> 't locals \<Rightarrow> bool" where
  "all_locals z h ps X b l \<longleftrightarrow>
     X \<subseteq> {i. i < length ps \<and> done' (h (ps ! i)) \<noteq> []} \<and>
     length (results l) = length ps \<and> length (errors l) = length ps \<and>
     (\<forall>i<length ps. errors l ! i = (if i \<in> X then snd (answer z h ps i) else None)) \<and>
     (\<forall>i\<in>X. snd (answer z h ps i) = None \<longrightarrow> results l ! i = fst (answer z h ps i)) \<and>
     wg l + card X = length ps"

text \<open>
  \<open>All(f_ok_after_100, f_fails_immediately)\<close>: promise 0 is produced after 100 time
  units, promise 1 is rejected from the start, promise 2 is the result of \<open>All\<close>.
  Goroutine 0 produces promise 0, goroutine 1 runs the closure of \<open>All\<close>, goroutines 2
  and 3 are started by it for the two inputs.
\<close>

definition all_slow_fail :: "nat sys" where
  "all_slow_fail =
     (let (p0, s) = NewPromise (Val 0) (Compute 100 (Returns (Val 1) None)) init;
          (p1, s) = Reject (Val 0) (Some (Custom ''boom'')) s;
          (q, s) = All (Val 0) [p0, p1] s
      in s)"

text \<open>
  Every goroutine runs as far as it can at time 0, then 99 time units pass.
\<close>

definition all_slow_fail_99 :: "nat sys" where
  "all_slow_fail_99 =
     run all_slow_fail
       ([Run 0 False, Run 1 False, Run 2 False, Run 3 False, Run 3 False, Run 1 False]
        @ replicate 99 Tick)"

text \<open>
  The invariant of \<open>All(f_ok_after_100, f_fails_immediately)\<close> before time 100: the
  first input is \<open>Pending\<close> with its goroutine asleep, the second input is \<open>Rejected\<close>,
  the goroutine started for the first input is inside \<open>Await\<close>, the wait group has not
  reached zero and the promise of \<open>All\<close> is as \<open>NewPromise\<close> made it.
\<close>

definition all_slow_fail_inv :: "nat sys \<Rightarrow> bool" where
  "all_slow_fail_inv s \<longleftrightarrow>
     100 \<le> clock s \<or>
     ((\<forall>t. 4 \<le> t \<longrightarrow> threads s t = Exited) \<and>
      heap s 0 = pending (Val 0) \<and> state (heap s 1) = Rejected \<and>
      value' (heap s 1) = Val 0 \<and> error (heap s 1) = Some (Custom ''boom'') \<and>
      heap s 2 = pending (Slice []) \<and>
      (threads s 0 = Producer 0 (Compute 100 (Returns (Val 1) None)) \<or>
       (\<exists>w. 100 \<le> w \<and> threads s 0 = Producer 0 (Sleeping w (Returns (Val 1) None)))) \<and>
      ((threads s 1 = Producer 2 (Start CAll [0, 1] (Val 0)) \<and> nextf s = 0 \<and> nextt s = 2 \<and>
        threads s 2 = Exited \<and> threads s 3 = Exited) \<or>
       (threads s 1 = Producer 2 (Join CAll 0 (Val 0)) \<and>
        threads s 2 = Child CAll 0 0 0 (Val 0) \<and>
        ((threads s 3 = Child CAll 0 1 1 (Val 0) \<and> wg (frames s 0) = 2) \<or>
         (\<exists>v e. threads s 3 = Deliver CAll 0 1 v e (Val 0) \<and> wg (frames s 0) = 2) \<or>
         (threads s 3 = Exited \<and> wg (frames s 0) = 1)))))"

subsection \<open>\<open>Any\<close> over settled inputs\<close>

text \<open>The inputs among \<open>X\<close> whose \<open>Await\<close> returns a non-nil error.\<close>

definition failed :: "'t val \<Rightarrow> (pid \<Rightarrow> 't val Promise) \<Rightarrow> pid list \<Rightarrow> nat set \<Rightarrow> nat set" where
  "failed z h ps X = {i \<in> X. snd (answer z h ps i) \<noteq> None}"

text \<open>
  The local variables of \<open>Any\<close> while it waits at the receive: the wait group counts
  the inputs that have not finished, \<open>result\<close> is closed exactly when the closer has run,
  which is after all inputs have finished, \<open>errors\<close> holds the errors of the finished
  inputs that failed, in some order, and \<open>result\<close> is empty with every finished input a
  failure, or holds the value of a finished input that succeeded.
\<close>

definition any_locals ::
  "'t val \<Rightarrow> (pid \<Rightarrow> 't val Promise) \<Rightarrow> pid list \<Rightarrow> nat set \<Rightarrow> bool \<Rightarrow> 't locals \<Rightarrow> bool" where
  "any_locals z h ps X b l \<longleftrightarrow>
     X \<subseteq> {..<length ps} \<and> wg l + card X = length ps \<and> closed l = b \<and>
     (b \<longrightarrow> X = {..<length ps}) \<and>
     mset (errs l) = image_mset (\<lambda>i. the (snd (answer z h ps i))) (mset_set (failed z h ps X)) \<and>
     ((result_ch l = [] \<and> failed z h ps X = X) \<or>
      (\<exists>i\<in>X. snd (answer z h ps i) = None \<and> result_ch l = [fst (answer z h ps i)]))"

text \<open>The pair the closure of \<open>Any\<close> returns.\<close>

definition any_result ::
  "'t val \<Rightarrow> (pid \<Rightarrow> 't val Promise) \<Rightarrow> pid list \<Rightarrow> 't val \<Rightarrow> error option \<Rightarrow> bool" where
  "any_result z h ps v e \<longleftrightarrow>
     (e = None \<and> (\<exists>p\<in>set ps. snd (stored z (h p)) = None \<and> v = fst (stored z (h p)))) \<or>
     (v = z \<and> (\<forall>p\<in>set ps. snd (stored z (h p)) \<noteq> None) \<and>
      (\<exists>es. e = Some (AllRejected es) \<and>
            mset es = mset (map (\<lambda>p. the (snd (stored z (h p)))) ps)))"

subsection \<open>A combinator over a promise that has been awaited before\<close>

text \<open>
  \<open>p := Resolve(v); p.Await(); AllSettled(p)\<close> and the same with \<open>Any\<close>: the caller's
  \<open>Await\<close> has returned before the combinator is called.
\<close>

definition allsettled_after_await :: "'t val \<Rightarrow> 't val \<Rightarrow> 't sys" where
  "allsettled_after_await z v =
     (let (p, s) = Resolve v init;
          (a, s) = go (AwaitCall z p) s;
          s = step (Run a False) s;
          (q, s) = AllSettled z [p] s
      in s)"

definition any_after_await :: "'t val \<Rightarrow> 't val \<Rightarrow> 't sys" where
  "any_after_await z v =
     (let (p, s) = Resolve v init;
          (a, s) = go (AwaitCall z p) s;
          s = step (Run a False) s;
          (q, s) = Any z [p] s
      in s)"

text \<open>
  The invariant of both: goroutine 0 is the caller that has returned, goroutine 1 runs the
  closure of the combinator \<open>k\<close>, goroutine 2 is the one started for the input, inside
  \<open>Await\<close> with \<open>p.done\<close> empty, and goroutine 3 is the closer of \<open>Any\<close>.
\<close>

definition after_await_inv :: "comb \<Rightarrow> 't val \<Rightarrow> 't val \<Rightarrow> 't val \<Rightarrow> 't sys \<Rightarrow> bool" where
  "after_await_inv k zk z v s \<longleftrightarrow>
     (\<forall>t. 4 \<le> t \<longrightarrow> threads s t = Exited) \<and> threads s 0 = Returned v None \<and>
     heap s 0 = (resolved v)\<lparr>done' := []\<rparr> \<and> heap s 1 = pending zk \<and>
     ((threads s 1 = Producer 1 (Start k [0] z) \<and> nextf s = 0 \<and> nextt s = 2 \<and>
       threads s 2 = Exited \<and> threads s 3 = Exited) \<or>
      (threads s 1 = Producer 1 (Join k 0 z) \<and> threads s 2 = Child k 0 0 0 z \<and>
       threads s 3 = (if k = CAny then Closer 0 else Exited) \<and>
       frames s 0 = new_locals 1 z))"

subsection \<open>A combinator over the same promise twice\<close>

text \<open>\<open>p := Resolve(v); AllSettled(p, p)\<close> and \<open>q := Reject(e); Any(q, q)\<close>.\<close>

definition allsettled_twice :: "'t val \<Rightarrow> 't val \<Rightarrow> 't sys" where
  "allsettled_twice z v =
     (let (p, s) = Resolve v init;
          (q, s) = AllSettled z [p, p] s
      in s)"

definition any_twice :: "'t val \<Rightarrow> error \<Rightarrow> 't sys" where
  "any_twice z e =
     (let (p, s) = Reject z (Some e) init;
          (q, s) = Any z [p, p] s
      in s)"

text \<open>
  The goroutine \<open>t\<close> started for position \<open>i\<close> is past \<open>Await\<close>, which returned
  \<open>(v, e)\<close>: it is about to store the pair, or it has done so and has left the wait
  group.
\<close>

definition past_await :: "comb \<Rightarrow> 't val \<Rightarrow> 't val \<Rightarrow> error option \<Rightarrow> 't sys \<Rightarrow> tid \<Rightarrow> nat \<Rightarrow> bool" where
  "past_await k z v e s t i \<longleftrightarrow>
     (threads s t = Deliver k 0 i v e z \<and> wg (frames s 0) = 2) \<or>
     (threads s t = Exited \<and> wg (frames s 0) = 1)"

text \<open>
  The invariant of both, for the promise \<open>P\<close> that \<open>Resolve\<close> or \<open>Reject\<close> made and the
  pair \<open>(v, e)\<close> that \<open>Await\<close> returns for it: goroutine 0 runs the closure of the
  combinator \<open>k\<close>, goroutines 1 and 2 are started for the two positions, goroutine 3 is
  the closer of \<open>Any\<close>. At most one of the two is past \<open>Await\<close>, the other one is inside
  it with \<open>p.done\<close> empty, and the wait group has not reached zero.
\<close>

definition twice_inv ::
  "comb \<Rightarrow> 't val \<Rightarrow> 't val \<Rightarrow> 't val Promise \<Rightarrow> 't val \<Rightarrow> error option \<Rightarrow> 't sys \<Rightarrow> bool" where
  "twice_inv k zk z P v e s \<longleftrightarrow>
     (\<forall>t. 4 \<le> t \<longrightarrow> threads s t = Exited) \<and> heap s 1 = pending zk \<and>
     ((threads s 0 = Producer 1 (Start k [0, 0] z) \<and> heap s 0 = P \<and> nextf s = 0 \<and> nextt s = 1 \<and>
       threads s 1 = Exited \<and> threads s 2 = Exited \<and> threads s 3 = Exited) \<or>
      (threads s 0 = Producer 1 (Join k 0 z) \<and>
       threads s 3 = (if k = CAny then Closer 0 else Exited) \<and>
       result_ch (frames s 0) = [] \<and> \<not> closed (frames s 0) \<and>
       ((threads s 1 = Child k 0 0 0 z \<and> threads s 2 = Child k 0 1 0 z \<and> heap s 0 = P \<and>
         wg (frames s 0) = 2) \<or>
        (past_await k z v e s 1 0 \<and> threads s 2 = Child k 0 1 0 z \<and> heap s 0 = P\<lparr>done' := []\<rparr>) \<or>
        (threads s 1 = Child k 0 0 0 z \<and> past_await k z v e s 2 1 \<and> heap s 0 = P\<lparr>done' := []\<rparr>))))"

section \<open>Properties\<close>

subsection \<open>Schedules and invariants\<close>

lemma run_append: "run s (as @ bs) = run (run s as) bs"
  by (induction as arbitrary: s) auto

lemma run_invariant:
  assumes "I s" and "\<And>s a. I s \<Longrightarrow> I (step a s)"
  shows "I (run s as)"
  using assms(1) by (induction as arbitrary: s) (auto intro: assms(2))

lemma spawn_Nil [simp]: "spawn [] s = s"
proof -
  have "(\<lambda>t. if nextt s \<le> t \<and> t < nextt s then [] ! (t - nextt s) else threads s t) = threads s"
    by (rule ext) auto
  then show ?thesis by (simp add: spawn_def)
qed

lemma select2_simps [simp]:
  "select2 c [] [] = None"
  "select2 c (x # xs) [] = Some (Inl x)"
  "select2 c [] (y # ys) = Some (Inr y)"
  "select2 c (x # xs) (y # ys) = Some (if c then Inr y else Inl x)"
  by (simp_all add: select2_def)

subsection \<open>A promise settles once\<close>

lemma exec_summary:
  assumes "exec c th s = Some (th', s')"
  shows "nextp s' = nextp s \<and> nextt s \<le> nextt s' \<and>
    (\<forall>t. threads s' t = threads s t \<or>
         (nextt s \<le> t \<and> t < nextt s' \<and> writer (threads s' t) = None)) \<and>
    ((writer th' = writer th \<and> (\<forall>p. core (heap s' p) = core (heap s p))) \<or>
     (\<exists>p. writer th = Some p \<and> writer th' = None \<and>
        (\<forall>q. q \<noteq> p \<longrightarrow> core (heap s' q) = core (heap s q)) \<and>
        ((\<exists>v. th = Settling p v None \<and> state (heap s' p) = Fulfilled \<and>
              value' (heap s' p) = v \<and> error (heap s' p) = error (heap s p)) \<or>
         (state (heap s' p) = Rejected \<and> value' (heap s' p) = value' (heap s p) \<and>
          error (heap s' p) \<noteq> None))))"
proof (cases th)
  case (Producer p ex)
  with assms show ?thesis
    by (cases ex)
      (auto simp: core_def upd_def updf_def spawn_def nth_append
            split: if_splits option.splits sum.splits outcome.splits prod.splits)
next
  case (Settling p v e)
  with assms show ?thesis
    by (cases e) (auto simp: core_def upd_def)
qed (use assms in \<open>auto simp: core_def upd_def updf_def Await_def
       split: if_splits option.splits sum.splits list.splits\<close>)

lemma single_writer_init: "single_writer init"
  by (simp add: single_writer_def init_def)

lemma single_writer_step:
  assumes "single_writer s"
  shows "single_writer (step a s)"
proof (cases a)
  case Tick
  with assms show ?thesis by (simp add: single_writer_def)
next
  case (Run t c)
  show ?thesis
  proof (cases "exec c (threads s t) s")
    case None
    with Run assms show ?thesis by simp
  next
    case (Some r)
    obtain th' s' where r: "r = (th', s')" by (cases r)
    note E = exec_summary [OF Some [unfolded r]]
    have st: "step a s = s'\<lparr>threads := (threads s')(t := th')\<rparr>"
      using Run Some r by simp
    note np = E [THEN conjunct1]
    note nt = E [THEN conjunct2, THEN conjunct1]
    have old: "threads s' u = threads s u \<or>
        (nextt s \<le> u \<and> u < nextt s' \<and> writer (threads s' u) = None)" for u
      using E [THEN conjunct2, THEN conjunct2, THEN conjunct1] by (rule spec)
    have heapcase:
      "(writer th' = writer (threads s t) \<and> (\<forall>p. core (heap s' p) = core (heap s p))) \<or>
       (\<exists>p. writer (threads s t) = Some p \<and> writer th' = None \<and>
          (\<forall>q. q \<noteq> p \<longrightarrow> core (heap s' q) = core (heap s q)))"
      using E [THEN conjunct2, THEN conjunct2, THEN conjunct2]
      by (elim disjE exE conjE) (simp, blast+)
    have W: "p < nextp s \<and> u < nextt s \<and> state (heap s p) = Pending \<and>
        (\<forall>u'. writer (threads s u') = Some p \<longrightarrow> u' = u)"
      if "writer (threads s u) = Some p" for u p
      using assms that unfolding single_writer_def by blast
    have wr: "writer (threads s u) = Some p"
      if a: "writer ((threads (step a s)) u) = Some p" for u p
    proof (cases "u = t")
      case True
      with a st have "writer th' = Some p" by simp
      with heapcase True show ?thesis by (elim disjE exE conjE) simp_all
    next
      case False
      with a st have "writer (threads s' u) = Some p" by simp
      with old [of u] show ?thesis by (elim disjE conjE) simp_all
    qed
    have stp: "state (heap (step a s) p) = Pending"
      if a: "writer ((threads (step a s)) u) = Some p" for u p
    proof -
      from wr [OF a] have w: "writer (threads s u) = Some p" .
      from W [OF w] have P: "state (heap s p) = Pending" by simp
      from heapcase show "state (heap (step a s) p) = Pending"
      proof
        assume "writer th' = writer (threads s t) \<and> (\<forall>p. core (heap s' p) = core (heap s p))"
        then have "core (heap s' p) = core (heap s p)" by simp
        with P st show ?thesis by (simp add: core_def)
      next
        assume "\<exists>p. writer (threads s t) = Some p \<and> writer th' = None \<and>
          (\<forall>q. q \<noteq> p \<longrightarrow> core (heap s' q) = core (heap s q))"
        then obtain p0 where p0: "writer (threads s t) = Some p0" "writer th' = None"
          "\<forall>q. q \<noteq> p0 \<longrightarrow> core (heap s' q) = core (heap s q)" by (elim exE conjE)
        have "u \<noteq> t" using a st p0(2) by auto
        with W [OF p0(1)] w have "p \<noteq> p0" by auto
        with p0(3) have "core (heap s' p) = core (heap s p)" by simp
        with P st show ?thesis by (simp add: core_def)
      qed
    qed
    show ?thesis
      unfolding single_writer_def
    proof (intro allI impI conjI)
      fix u p assume a: "writer (threads (step a s) u) = Some p"
      from W [OF wr [OF a]] np nt st
      show "p < nextp (step a s)" "u < nextt (step a s)" by simp_all
      from stp [OF a] show "state (heap (step a s) p) = Pending" .
    next
      fix u p u' assume a: "writer (threads (step a s) u) = Some p"
        and b: "writer (threads (step a s) u') = Some p"
      from W [OF wr [OF a]] wr [OF b] show "u' = u" by blast
    qed
  qed
qed

lemma single_writer_alloc:
  assumes "single_writer s"
  shows "single_writer (s\<lparr>heap := (heap s)(nextp s := P), nextp := Suc (nextp s)\<rparr>)"
    (is "single_writer ?s'")
  unfolding single_writer_def
proof (intro allI impI)
  fix t p assume "writer (threads ?s' t) = Some p"
  then have w: "writer (threads s t) = Some p" by simp
  with assms have "p < nextp s" "t < nextt s" "state (heap s p) = Pending"
    "\<forall>t'. writer (threads s t') = Some p \<longrightarrow> t' = t"
    unfolding single_writer_def by blast+
  then show "p < nextp ?s' \<and> t < nextt ?s' \<and> state (heap ?s' p) = Pending \<and>
      (\<forall>t'. writer (threads ?s' t') = Some p \<longrightarrow> t' = t)"
    by simp
qed

lemma single_writer_spawn:
  assumes "single_writer s"
    and "writer th = None \<or>
         (\<exists>p. writer th = Some p \<and> p < nextp s \<and> state (heap s p) = Pending \<and>
              (\<forall>t. writer (threads s t) \<noteq> Some p))"
  shows "single_writer (spawn [th] s)"
  unfolding single_writer_def
proof (intro allI impI)
  fix t p assume a: "writer (threads (spawn [th] s) t) = Some p"
  have W: "q < nextp s \<and> u < nextt s \<and> state (heap s q) = Pending \<and>
      (\<forall>u'. writer (threads s u') = Some q \<longrightarrow> u' = u)"
    if "writer (threads s u) = Some q" for u q
    using assms(1) that unfolding single_writer_def by blast
  have th: "threads (spawn [th] s) u = (if u = nextt s then th else threads s u)" for u
    by (auto simp: spawn_def)
  show "p < nextp (spawn [th] s) \<and> t < nextt (spawn [th] s) \<and>
      state (heap (spawn [th] s) p) = Pending \<and>
      (\<forall>t'. writer (threads (spawn [th] s) t') = Some p \<longrightarrow> t' = t)"
  proof (cases "t = nextt s")
    case True
    with a th have wp: "writer th = Some p" by simp
    with assms(2) have f: "p < nextp s" "state (heap s p) = Pending"
      "\<forall>t. writer (threads s t) \<noteq> Some p" by auto
    have "\<forall>t'. writer (threads (spawn [th] s) t') = Some p \<longrightarrow> t' = t"
      using f(3) True by (simp add: th)
    with f True show ?thesis by (simp add: spawn_def)
  next
    case False
    with a th have w: "writer (threads s t) = Some p" by simp
    note Wt = W [OF w]
    have "writer th \<noteq> Some p"
      using assms(2) w by auto
    then have "\<forall>t'. writer (threads (spawn [th] s) t') = Some p \<longrightarrow> t' = t"
      using Wt by (simp add: th)
    with Wt show ?thesis by (simp add: spawn_def)
  qed
qed

lemma single_writer_fresh:
  assumes "single_writer s"
  shows "writer (threads s t) \<noteq> Some (nextp s)"
proof
  assume "writer (threads s t) = Some (nextp s)"
  with assms have "nextp s < nextp s" unfolding single_writer_def by blast
  then show False by simp
qed

lemma single_writer_reachable: "reachable s \<Longrightarrow> single_writer s"
proof (induction rule: reachable.induct)
  case r_init
  show ?case by (rule single_writer_init)
next
  case (r_new s z ex)
  have "single_writer (spawn [Producer (nextp s) ex]
          (s\<lparr>heap := (heap s)(nextp s := pending z), nextp := Suc (nextp s)\<rparr>))"
    by (rule single_writer_spawn [OF single_writer_alloc [OF r_new.IH]])
       (simp add: pending_def single_writer_fresh [OF r_new.IH])
  then show ?case by (simp add: NewPromise_def)
next
  case (r_resolve s v)
  then show ?case by (simp add: Resolve_def single_writer_alloc)
next
  case (r_reject s z e)
  then show ?case by (simp add: Reject_def single_writer_alloc)
next
  case (r_go s th)
  then show ?case by (simp add: go_def single_writer_spawn)
next
  case (r_step s a)
  then show ?case by (simp add: single_writer_step)
qed

lemma reachable_run: "reachable s \<Longrightarrow> reachable (run s as)"
  by (induction as arbitrary: s) (auto intro: r_step)

text \<open>
  A step that changes the settlement of \<open>p\<close> is the critical section of the goroutine
  that settles \<open>p\<close>.
\<close>

lemma exec_core:
  assumes "exec c th s = Some (th', s')" and "core (heap s' p) \<noteq> core (heap s p)"
  shows "writer th = Some p \<and>
     ((\<exists>v. th = Settling p v None \<and> state (heap s' p) = Fulfilled \<and>
           value' (heap s' p) = v \<and> error (heap s' p) = error (heap s p)) \<or>
      (state (heap s' p) = Rejected \<and> value' (heap s' p) = value' (heap s p) \<and>
       error (heap s' p) \<noteq> None))"
proof -
  note D = exec_summary [OF assms(1), THEN conjunct2, THEN conjunct2, THEN conjunct2]
  from D show ?thesis
  proof
    assume "writer th' = writer th \<and> (\<forall>p. core (heap s' p) = core (heap s p))"
    with assms(2) show ?thesis by simp
  next
    assume "\<exists>p. writer th = Some p \<and> writer th' = None \<and>
        (\<forall>q. q \<noteq> p \<longrightarrow> core (heap s' q) = core (heap s q)) \<and>
        ((\<exists>v. th = Settling p v None \<and> state (heap s' p) = Fulfilled \<and>
              value' (heap s' p) = v \<and> error (heap s' p) = error (heap s p)) \<or>
         (state (heap s' p) = Rejected \<and> value' (heap s' p) = value' (heap s p) \<and>
          error (heap s' p) \<noteq> None))"
    then obtain p0 where w: "writer th = Some p0"
      and oth: "\<forall>q. q \<noteq> p0 \<longrightarrow> core (heap s' q) = core (heap s q)"
      and new: "(\<exists>v. th = Settling p0 v None \<and> state (heap s' p0) = Fulfilled \<and>
              value' (heap s' p0) = v \<and> error (heap s' p0) = error (heap s p0)) \<or>
         (state (heap s' p0) = Rejected \<and> value' (heap s' p0) = value' (heap s p0) \<and>
          error (heap s' p0) \<noteq> None)"
      by (elim exE conjE)
    from oth assms(2) have "p = p0" by (cases "p = p0") simp_all
    with w new show ?thesis by simp
  qed
qed

lemma step_core:
  assumes "single_writer s"
  shows "core (heap (step a s) p) = core (heap s p) \<or>
     (state (heap s p) = Pending \<and>
      ((\<exists>t c v. a = Run t c \<and> threads s t = Settling p v None \<and>
          state (heap (step a s) p) = Fulfilled \<and> value' (heap (step a s) p) = v \<and>
          error (heap (step a s) p) = error (heap s p)) \<or>
       (state (heap (step a s) p) = Rejected \<and>
          value' (heap (step a s) p) = value' (heap s p) \<and>
          error (heap (step a s) p) \<noteq> None)))"
proof (cases "core (heap (step a s) p) = core (heap s p)")
  case True
  then show ?thesis by simp
next
  case False
  then obtain t c where a: "a = Run t c" by (cases a) auto
  from False a obtain th' s' where e: "exec c (threads s t) s = Some (th', s')"
    by (cases "exec c (threads s t) s") auto
  from a e have st: "heap (step a s) = heap s'" by simp
  from False st have "core (heap s' p) \<noteq> core (heap s p)" by simp
  from exec_core [OF e this]
  have w: "writer (threads s t) = Some p"
    and new: "(\<exists>v. threads s t = Settling p v None \<and> state (heap s' p) = Fulfilled \<and>
           value' (heap s' p) = v \<and> error (heap s' p) = error (heap s p)) \<or>
      (state (heap s' p) = Rejected \<and> value' (heap s' p) = value' (heap s p) \<and>
       error (heap s' p) \<noteq> None)"
    by simp_all
  from assms w have P: "state (heap s p) = Pending" unfolding single_writer_def by blast
  from new have "(\<exists>t c v. a = Run t c \<and> threads s t = Settling p v None \<and>
          state (heap s' p) = Fulfilled \<and> value' (heap s' p) = v \<and>
          error (heap s' p) = error (heap s p)) \<or>
       (state (heap s' p) = Rejected \<and> value' (heap s' p) = value' (heap s p) \<and>
          error (heap s' p) \<noteq> None)"
    using a by blast
  with P show ?thesis unfolding st by blast
qed

lemma run_core:
  "single_writer s \<Longrightarrow> state (heap s p) \<noteq> Pending \<Longrightarrow>
   core (heap (run s sched) p) = core (heap s p)"
proof (induction sched arbitrary: s)
  case Nil
  show ?case by simp
next
  case (Cons a as)
  from step_core [OF Cons.prems(1), of a p] Cons.prems(2)
  have c: "core (heap (step a s) p) = core (heap s p)" by simp
  then have "state (heap (step a s) p) \<noteq> Pending"
    using Cons.prems(2) by (simp add: core_def)
  from Cons.IH [OF single_writer_step [OF Cons.prems(1)] this] c show ?case by simp
qed

text \<open>
  C9. In every state a program can reach, for every promise \<open>p\<close>:
  \<^item> a step leaves the state, value and error of \<open>p\<close> as they are, or \<open>p\<close> is
    \<open>Pending\<close> and the step makes it \<open>Fulfilled\<close> and stores the value the executor
    returned, the error untouched, or makes it \<open>Rejected\<close> and stores a non-nil error,
    the value untouched;
  \<^item> once \<open>p\<close> is not \<open>Pending\<close>, its state, value and error are the same after
    every schedule;
  \<^item> \<open>NewPromise\<close> allocates a \<open>Pending\<close> promise, \<open>Resolve(v)\<close> a \<open>Fulfilled\<close> one
    with value \<open>v\<close>, \<open>Reject(e)\<close> a \<open>Rejected\<close> one with error \<open>e\<close>.
\<close>

theorem settle_once:
  assumes "reachable s"
  shows "(core (heap (step a s) p) = core (heap s p) \<or>
     (state (heap s p) = Pending \<and>
      ((\<exists>t c v. a = Run t c \<and> threads s t = Settling p v None \<and>
          state (heap (step a s) p) = Fulfilled \<and> value' (heap (step a s) p) = v \<and>
          error (heap (step a s) p) = error (heap s p)) \<or>
       (state (heap (step a s) p) = Rejected \<and>
          value' (heap (step a s) p) = value' (heap s p) \<and>
          error (heap (step a s) p) \<noteq> None)))) \<and>
    (state (heap s p) \<noteq> Pending \<longrightarrow> core (heap (run s sched) p) = core (heap s p)) \<and>
    state (heap (snd (NewPromise z ex s)) (fst (NewPromise z ex s))) = Pending \<and>
    core (heap (snd (Resolve v s)) (fst (Resolve v s))) = (Fulfilled, v, None) \<and>
    core (heap (snd (Reject z e s)) (fst (Reject z e s))) = (Rejected, z, e)"
proof -
  have w: "single_writer s" by (rule single_writer_reachable [OF assms])
  have A: "state (heap s p) \<noteq> Pending \<longrightarrow> core (heap (run s sched) p) = core (heap s p)"
    using run_core [OF w] by (rule impI)
  have B: "state (heap (snd (NewPromise z ex s)) (fst (NewPromise z ex s))) = Pending \<and>
    core (heap (snd (Resolve v s)) (fst (Resolve v s))) = (Fulfilled, v, None) \<and>
    core (heap (snd (Reject z e s)) (fst (Reject z e s))) = (Rejected, z, e)"
    by (simp add: NewPromise_def Resolve_def Reject_def spawn_def pending_def resolved_def
        rejected_def core_def)
  show ?thesis by (rule conjI [OF step_core [OF w] conjI [OF A B]])
qed

theorem settle_once_witness:
  "reachable (run (two_catches (Val 0) (Val (7::nat))) [Run 0 False]) \<and>
   state (heap (run (two_catches (Val 0) (Val (7::nat))) [Run 0 False]) 1) = Pending \<and>
   core (heap (step (Run 0 False) (run (two_catches (Val 0) (Val (7::nat))) [Run 0 False])) 1)
     = (Fulfilled, Val 7, None) \<and>
   core (heap (run (two_catches (Val 0) (Val (7::nat))) [Run 0 False]) 0)
     = (Fulfilled, Val 7, None) \<and>
   core (heap (run (run (two_catches (Val 0) (Val (7::nat))) [Run 0 False])
                [Run 0 False, Run 1 True, Tick]) 0) = (Fulfilled, Val 7, None)"
proof -
  let ?s = "run (two_catches (Val 0) (Val (7::nat))) [Run 0 False]"
  have "reachable (two_catches (Val 0) (Val (7::nat)))"
    unfolding two_catches_def Catch_def
    by (simp add: split_def Let_def) (intro r_new r_resolve r_init)
  then have r: "reachable ?s" by (rule reachable_run)
  have c0: "core (heap ?s 0) = (Fulfilled, Val 7, None)"
    by (simp add: two_catches_def Resolve_def Catch_def NewPromise_def spawn_def init_def
        resolved_def pending_def upd_def core_def)
  have c1: "state (heap ?s 1) = Pending"
    by (simp add: two_catches_def Resolve_def Catch_def NewPromise_def spawn_def init_def
        resolved_def pending_def upd_def)
  have c2: "core (heap (step (Run 0 False) ?s) 1) = (Fulfilled, Val 7, None)"
    by (simp add: two_catches_def Resolve_def Catch_def NewPromise_def spawn_def init_def
        resolved_def pending_def upd_def core_def)
  from c0 have "state (heap ?s 0) \<noteq> Pending" by (simp add: core_def)
  with settle_once [OF r, of _ 0 "[Run 0 False, Run 1 True, Tick]"] c0
  have "core (heap (run ?s [Run 0 False, Run 1 True, Tick]) 0) = (Fulfilled, Val 7, None)"
    by simp
  with r c0 c1 c2 show ?thesis by (intro conjI)
qed

subsection \<open>A second \<open>Await\<close> on a settled promise\<close>

lemma two_awaits_init: "two_awaits_inv z v (two_awaits z v)"
  by (simp add: two_awaits_inv_def two_awaits_def Resolve_def go_def spawn_def init_def)

lemma two_awaits_step: "two_awaits_inv z v s \<Longrightarrow> two_awaits_inv z v (step a s)"
proof (cases a)
  case Tick
  assume "two_awaits_inv z v s"
  with Tick show ?thesis by (simp add: two_awaits_inv_def)
next
  case (Run t c)
  assume I: "two_awaits_inv z v s"
  consider "t = 0" | "t = 1" | "2 \<le> t" by linarith
  then show ?thesis
  proof cases
    case 1
    with I Run show ?thesis
      unfolding two_awaits_inv_def
      by (elim conjE disjE) (simp_all add: Await_def upd_def resolved_def stored_def)
  next
    case 2
    with I Run show ?thesis
      unfolding two_awaits_inv_def
      by (elim conjE disjE) (simp_all add: Await_def upd_def resolved_def stored_def)
  next
    case 3
    with I Run show ?thesis
      by (simp add: two_awaits_inv_def)
  qed
qed

lemma two_awaits_reach: "two_awaits_inv z v (run (two_awaits z v) sched)"
  by (rule run_invariant [where I = "two_awaits_inv z v"])
     (auto intro: two_awaits_init two_awaits_step)

text \<open>
  C1 (the code departs from it). Two callers run \<open>p.Await()\<close> on \<open>p = Resolve(v)\<close>. The
  caller scheduled first returns \<open>(v, nil)\<close>. Under every schedule at most one of the
  two calls returns: the first receive empties \<open>p.done\<close>, nothing sends on it again, and
  the other call stays blocked in \<open><-p.done\<close>.
\<close>

theorem second_await_blocks:
  "threads (run (two_awaits z v) [Run 0 c]) 0 = Returned v None \<and>
   \<not> (\<exists>v1 e1 v2 e2. threads (run (two_awaits z v) sched) 0 = Returned v1 e1 \<and>
         threads (run (two_awaits z v) sched) 1 = Returned v2 e2)"
proof
  show "threads (run (two_awaits z v) [Run 0 c]) 0 = Returned v None"
    by (simp add: two_awaits_def Resolve_def go_def spawn_def init_def Await_def resolved_def
        stored_def upd_def)
  show "\<not> (\<exists>v1 e1 v2 e2. threads (run (two_awaits z v) sched) 0 = Returned v1 e1 \<and>
         threads (run (two_awaits z v) sched) 1 = Returned v2 e2)"
    using two_awaits_reach [of z v sched] unfolding two_awaits_inv_def
    by (elim conjE disjE) simp_all
qed

subsection \<open>\<open>AwaitWithTimeout\<close> after settlement\<close>

lemma timed_await_init: "timed_await_inv z v d (timed_await z v d)"
  by (simp add: timed_await_inv_def timed_await_def Resolve_def go_def spawn_def init_def)

lemma timed_await_step: "timed_await_inv z v d s \<Longrightarrow> timed_await_inv z v d (step a s)"
proof (cases a)
  case Tick
  assume "timed_await_inv z v d s"
  with Tick show ?thesis by (simp add: timed_await_inv_def)
next
  case (Run t c)
  assume I: "timed_await_inv z v d s"
  show ?thesis
  proof (cases "t = 0")
    case True
    with I Run show ?thesis
      unfolding timed_await_inv_def
      by (elim conjE disjE exE) (simp_all add: Await_def upd_def resolved_def)
  next
    case False
    with I Run show ?thesis
      by (simp add: timed_await_inv_def)
  qed
qed

lemma timed_await_reach: "timed_await_inv z v d (run (timed_await z v d) sched)"
  by (rule run_invariant [where I = "timed_await_inv z v d"])
     (auto intro: timed_await_init timed_await_step)

text \<open>
  C2 (the code departs from it). A caller runs \<open>p.AwaitWithTimeout(d)\<close> on
  \<open>p = Resolve(v)\<close>, a promise settled from the start. Under every schedule the call
  never returns a value with a nil error, so never the settled value \<open>v\<close>: the
  \<open>select\<close> receives the one element of \<open>p.done\<close> and the \<open>p.Await()\<close> that follows
  blocks on the empty channel. Scheduled at once, the caller is inside that \<open>Await\<close>
  after two steps, with \<open>p.done\<close> empty.
\<close>

theorem timed_await_never_value:
  "threads (run (timed_await z v d) sched) 0 \<noteq> Returned v' None \<and>
   threads (run (timed_await z v (Suc d)) [Run 0 c, Run 0 c']) 0 = AwaitCall z 0 \<and>
   done' (heap (run (timed_await z v (Suc d)) [Run 0 c, Run 0 c']) 0) = []"
proof -
  have "threads (run (timed_await z v d) sched) 0 \<noteq> Returned v' None"
    using timed_await_reach [of z v d sched] unfolding timed_await_inv_def
    by (elim conjE disjE exE) simp_all
  moreover have "threads (run (timed_await z v (Suc d)) [Run 0 c, Run 0 c']) 0 = AwaitCall z 0"
    by (simp add: timed_await_def Resolve_def go_def spawn_def init_def resolved_def upd_def)
  moreover have "done' (heap (run (timed_await z v (Suc d)) [Run 0 c, Run 0 c']) 0) = []"
    by (simp add: timed_await_def Resolve_def go_def spawn_def init_def resolved_def upd_def)
  ultimately show ?thesis by simp
qed

subsection \<open>Two combinators on one settled promise\<close>

lemma two_catches_init: "two_catches_inv z v (two_catches z v)"
  by (simp add: two_catches_inv_def two_catches_def Resolve_def Catch_def NewPromise_def
      spawn_def init_def resolved_def pending_def)

lemma two_catches_step: "two_catches_inv z v s \<Longrightarrow> two_catches_inv z v (step a s)"
proof (cases a)
  case Tick
  assume "two_catches_inv z v s"
  with Tick show ?thesis by (simp add: two_catches_inv_def)
next
  case (Run t c)
  assume I: "two_catches_inv z v s"
  consider "t = 0" | "t = 1" | "2 \<le> t" by linarith
  then show ?thesis
  proof cases
    case 1
    with I Run show ?thesis
      unfolding two_catches_inv_def past_select_def
      by (elim conjE disjE) (simp_all add: upd_def)
  next
    case 2
    with I Run show ?thesis
      unfolding two_catches_inv_def past_select_def
      by (elim conjE disjE) (simp_all add: upd_def)
  next
    case 3
    with I Run show ?thesis
      by (simp add: two_catches_inv_def)
  qed
qed

lemma two_catches_reach: "two_catches_inv z v (run (two_catches z v) sched)"
  by (rule run_invariant [where I = "two_catches_inv z v"])
     (auto intro: two_catches_init two_catches_step)

text \<open>
  C3 (the code departs from it). \<open>Catch(f, nil)\<close> is applied twice to \<open>f = Resolve(v)\<close>,
  giving the promises 1 and 2. Under every schedule at least one of the two stays
  \<open>Pending\<close>: the closure of \<open>Catch\<close> receives from \<open>f.result\<close>, a channel that holds
  the value once, and the closure that comes second blocks in its \<open>select\<close>.
\<close>

theorem second_catch_starves:
  "state (heap (run (two_catches z v) sched) 1) = Pending \<or>
   state (heap (run (two_catches z v) sched) 2) = Pending"
  using two_catches_reach [of z v sched] unfolding two_catches_inv_def
  by (elim conjE disjE) simp_all

subsection \<open>\<open>Race\<close> of no promises\<close>

lemma race_empty_init: "race_empty_inv z (race_empty z)"
  by (simp add: race_empty_inv_def race_empty_def Race_def NewPromise_def go_def
      spawn_def init_def)

lemma race_empty_step: "race_empty_inv z s \<Longrightarrow> race_empty_inv z (step a s)"
proof (cases a)
  case Tick
  assume "race_empty_inv z s"
  with Tick show ?thesis by (simp add: race_empty_inv_def)
next
  case (Run t c)
  assume I: "race_empty_inv z s"
  consider "t = 0" | "t = 1" | "2 \<le> t" by linarith
  then show ?thesis
  proof cases
    case 1
    with I Run show ?thesis
      unfolding race_empty_inv_def
      by (elim conjE disjE exE) (simp_all add: new_locals_def)
  next
    case 2
    with I Run show ?thesis
      unfolding race_empty_inv_def
      by (elim conjE disjE exE) (simp_all add: Await_def pending_def)
  next
    case 3
    with I Run show ?thesis
      by (simp add: race_empty_inv_def)
  qed
qed

lemma race_empty_reach: "race_empty_inv z (run (race_empty z) sched)"
  by (rule run_invariant [where I = "race_empty_inv z"])
     (auto intro: race_empty_init race_empty_step)

text \<open>
  C10. \<open>Race()\<close> with no inputs returns a promise (there is no check of the input
  count and no error result), and under every schedule, however much time passes, that
  promise stays \<open>Pending\<close> and a caller of \<open>Await\<close> on it remains inside the call,
  unable to take a step.
\<close>

theorem race_empty_never_settles:
  "fst (Race z [] init) = 0 \<and>
   state (heap (run (race_empty z) sched) 0) = Pending \<and>
   threads (run (race_empty z) sched) 1 = AwaitCall z 0 \<and>
   exec c (threads (run (race_empty z) sched) 1) (run (race_empty z) sched) = None"
  using race_empty_reach [of z sched] unfolding race_empty_inv_def
  by (elim conjE disjE exE)
     (simp_all add: pending_def Await_def Race_def NewPromise_def init_def)

subsection \<open>Completion\<close>

text \<open>
  From a state of an invariant whose every state either has reached the goal or has a step
  that lowers a measure, some schedule reaches the goal.
\<close>

lemma can_finish:
  assumes "I s"
    and "\<And>s a. I s \<Longrightarrow> I (step a s)"
    and "\<And>s. I s \<Longrightarrow> G s \<or> (\<exists>a. m (step a s) < (m s :: nat))"
  shows "\<exists>as. G (run s as)"
  using assms(1)
proof (induction "m s" arbitrary: s rule: less_induct)
  case less
  from assms(3) [OF less.prems] show ?case
  proof
    assume "G s"
    then have "G (run s [])" by simp
    then show ?thesis by blast
  next
    assume "\<exists>a. m (step a s) < m s"
    then obtain a where a: "m (step a s) < m s" by blast
    from less.hyps [OF a assms(2) [OF less.prems]]
    obtain as where "G (run (step a s) as)" by blast
    then have "G (run s (a # as))" by simp
    then show ?thesis by blast
  qed
qed

subsection \<open>A producer that panics\<close>








subsection \<open>Combinators over settled inputs\<close>

lemma stored_core: "core P = core Q \<Longrightarrow> stored z P = stored z Q"
  by (simp add: core_def stored_def)

lemma out_phase_step:
  assumes "out_phase n zk v e (threads s 0) (heap s n)"
  shows "out_phase n zk v e (threads (step (Run 0 c) s) 0) (heap (step (Run 0 c) s) n) \<and>
         (\<forall>p. p \<noteq> n \<longrightarrow> heap (step (Run 0 c) s) p = heap s p) \<and>
         (\<forall>t. t \<noteq> 0 \<longrightarrow> threads (step (Run 0 c) s) t = threads s t) \<and>
         frames (step (Run 0 c) s) = frames s \<and> clock (step (Run 0 c) s) = clock s \<and>
         (threads s 0 = Exited \<or>
          todo (clock s) (threads (step (Run 0 c) s) 0) < todo (clock s) (threads s 0))"
  using assms unfolding out_phase_def
  by (elim disjE conjE; cases e)
     (simp_all add: upd_def settled_as_def published_def signalled_def pending_def)


lemma step_idle: "exec c (threads s t) s = None \<Longrightarrow> step (Run t c) s = s"
  by simp

lemma step_child_await:
  assumes "threads s t = Child k f i p z" and "done' (heap s p) \<noteq> []"
  shows "step (Run t c) s =
     s\<lparr>heap := (heap s)(p := (heap s p)\<lparr>done' := tl (done' (heap s p))\<rparr>),
       threads := (threads s)(t := Deliver k f i (fst (stored z (heap s p)))
                                      (snd (stored z (heap s p))) z)\<rparr>"
  using assms by (cases "done' (heap s p)") (simp_all add: Await_def upd_def split_def)

lemma step_deliver:
  assumes "threads s t = Deliver k f i v e z"
  shows "step (Run t c) s =
     s\<lparr>frames := (frames s)(f := deliver k i v e z (frames s f)),
       threads := (threads s)(t := Exited)\<rparr>"
  using assms by (simp add: updf_def)

lemma step_closer:
  assumes "threads s t = Closer f" and "wg (frames s f) = 0"
  shows "step (Run t c) s =
     s\<lparr>frames := (frames s)(f := (frames s f)\<lparr>closed := True\<rparr>),
       threads := (threads s)(t := Exited)\<rparr>"
  using assms by (simp add: updf_def)

lemma step_join:
  assumes "threads s t = Producer p (Join k f z)" and "join k c z (frames s f) = Some ((v, e), l)"
  shows "step (Run t c) s =
     s\<lparr>frames := (frames s)(f := l), threads := (threads s)(t := Settling p v e)\<rparr>"
  using assms by (simp add: updf_def)

lemma child_ok_cong:
  "threads s' (Suc i) = threads s (Suc i) \<Longrightarrow>
   done' (heap s' (ps ! i)) = done' (heap s (ps ! i)) \<Longrightarrow>
   child_ok k z h ps s' i = child_ok k z h ps s i"
  by (simp add: child_ok_def)

lemma finished_cong:
  "(\<And>i. i < length ps \<Longrightarrow> threads s' (Suc i) = threads s (Suc i)) \<Longrightarrow>
   finished ps s' = finished ps s"
  by (auto simp: finished_def)

text \<open>The facts about \<open>L\<close> and \<open>R\<close> that make \<open>fan_inv\<close> an invariant.\<close>

lemma fan_tick:
  assumes "fan_inv L R k zk z h n ps s"
  shows "fan_inv L R k zk z h n ps (step Tick s)"
proof -
  have c: "child_ok k z h ps (step Tick s) i = child_ok k z h ps s i" for i
    by (rule child_ok_cong) simp_all
  have f: "finished ps (step Tick s) = finished ps s"
    by (rule finished_cong) simp
  from assms show ?thesis
    unfolding fan_inv_def c f by (simp add: closer_ok_def)
qed

lemma fan_unchanged:
  assumes "fan_inv L R k zk z h n ps s" and "step a s = s"
  shows "fan_inv L R k zk z h n ps (step a s)"
  using assms by simp

lemma fan_start:
  assumes ns: "threads s 0 = Producer n (Start k ps z)" "\<forall>t. 0 < t \<longrightarrow> threads s t = Exited"
      "\<forall>p. p \<noteq> n \<longrightarrow> heap s p = h p" "heap s n = pending zk" "nextf s = 0" "nextt s = 1"
    and C: "\<forall>p. p \<noteq> n \<longrightarrow> core (heap s p) = core (h p)"
    and b: "\<forall>p\<in>set ps. p \<noteq> n"
    and A0: "L {} (k \<noteq> CAny) (new_locals (length ps) z)"
  shows "fan_inv L R k zk z h n ps (step (Run 0 c) s)"
proof -
  define s' where "s' = step (Run 0 c) s"
  let ?ts = "map (\<lambda>i. Child k 0 i (ps ! i) z) [0..<length ps] @ (if k = CAny then [Closer 0] else [])"
  have th: "threads s' t = (if t = 0 then Producer n (Join k 0 z)
      else if t < Suc (length ?ts) then ?ts ! (t - 1) else Exited)" for t
    unfolding s'_def using ns by (auto simp: spawn_def)
  have hp: "heap s' = heap s" unfolding s'_def using ns by (simp add: spawn_def)
  have fr: "frames s' 0 = new_locals (length ps) z"
    unfolding s'_def using ns by (simp add: spawn_def)
  have ch: "threads s' (Suc i) = Child k 0 i (ps ! i) z" if "i < length ps" for i
    using that by (simp add: th nth_append)
  have cl: "threads s' (Suc (length ps)) = (if k = CAny then Closer 0 else Exited)"
    by (simp add: th nth_append)
  have hi: "\<forall>t. length ps + 1 < t \<longrightarrow> threads s' t = Exited"
    by (simp add: th)
  have fin: "finished ps s' = {}"
    by (auto simp: finished_def ch)
  have ok: "\<forall>i<length ps. child_ok k z h ps s' i"
  proof (intro allI impI)
    fix i assume i: "i < length ps"
    then have "ps ! i \<noteq> n" using b by simp
    with ns(3) have "heap s (ps ! i) = h (ps ! i)" by simp
    with ch [OF i] show "child_ok k z h ps s' i" by (simp add: child_ok_def hp)
  qed
  have L0: "L (finished ps s') (threads s' (Suc (length ps)) = Exited) (frames s' 0)"
    using A0 by (cases "k = CAny") (simp_all add: fin cl fr)
  have t0: "threads s' 0 = Producer n (Join k 0 z)" by (simp add: th)
  have cl': "closer_ok k ps s'"
    by (simp add: cl closer_ok_def)
  have "fan_inv L R k zk z h n ps s'"
    unfolding fan_inv_def
    using hi C ok cl' t0 L0 ns(4) by (simp add: hp)
  then show ?thesis by (simp only: s'_def)
qed


lemma fan_child:
  assumes I: "fan_inv L R k zk z h n ps s"
    and i: "i < length ps"
    and d: "distinct ps" and b: "\<forall>p\<in>set ps. p \<noteq> n"
    and A2: "\<And>X b l j. L X b l \<Longrightarrow> j < length ps \<Longrightarrow> j \<notin> X \<Longrightarrow> done' (h (ps ! j)) \<noteq> [] \<Longrightarrow>
           L (insert j X) b (deliver k j (fst (answer z h ps j)) (snd (answer z h ps j)) z l)"
  shows "fan_inv L R k zk z h n ps (step (Run (Suc i) c) s)"
proof -
  define s' where "s' = step (Run (Suc i) c) s"
  from I have hi: "\<forall>t. length ps + 1 < t \<longrightarrow> threads s t = Exited"
    and C: "\<forall>p. p \<noteq> n \<longrightarrow> core (heap s p) = core (h p)"
    and D: "(threads s 0 = Producer n (Start k ps z) \<and> (\<forall>t. 0 < t \<longrightarrow> threads s t = Exited) \<and>
       (\<forall>p. p \<noteq> n \<longrightarrow> heap s p = h p) \<and> heap s n = pending zk \<and>
       nextf s = 0 \<and> nextt s = 1) \<or>
      ((\<forall>i<length ps. child_ok k z h ps s i) \<and>
       closer_ok k ps s \<and>
       ((threads s 0 = Producer n (Join k 0 z) \<and> heap s n = pending zk \<and>
         L (finished ps s) (threads s (Suc (length ps)) = Exited) (frames s 0)) \<or>
        (\<exists>v e. R v e \<and> out_phase n zk v e (threads s 0) (heap s n))))"
    unfolding fan_inv_def by blast+
  have pn: "ps ! i \<noteq> n" using i b by simp
  from D show ?thesis
  proof
    assume "threads s 0 = Producer n (Start k ps z) \<and> (\<forall>t. 0 < t \<longrightarrow> threads s t = Exited) \<and>
       (\<forall>p. p \<noteq> n \<longrightarrow> heap s p = h p) \<and> heap s n = pending zk \<and>
       nextf s = 0 \<and> nextt s = 1"
    then have "threads s (Suc i) = Exited" by simp
    then have "step (Run (Suc i) c) s = s" by simp
    with I show ?thesis by simp
  next
    assume "(\<forall>i<length ps. child_ok k z h ps s i) \<and>
       closer_ok k ps s \<and>
       ((threads s 0 = Producer n (Join k 0 z) \<and> heap s n = pending zk \<and>
         L (finished ps s) (threads s (Suc (length ps)) = Exited) (frames s 0)) \<or>
        (\<exists>v e. R v e \<and> out_phase n zk v e (threads s 0) (heap s n)))"
    then have ok: "\<And>j. j < length ps \<Longrightarrow> child_ok k z h ps s j"
      and cl: "closer_ok k ps s"
      and ex: "(threads s 0 = Producer n (Join k 0 z) \<and> heap s n = pending zk \<and>
         L (finished ps s) (threads s (Suc (length ps)) = Exited) (frames s 0)) \<or>
        (\<exists>v e. R v e \<and> out_phase n zk v e (threads s 0) (heap s n))"
      by blast+
    from ok [OF i] consider
        (wait) "threads s (Suc i) = Child k 0 i (ps ! i) z" "done' (heap s (ps ! i)) = []"
      | (await) "threads s (Suc i) = Child k 0 i (ps ! i) z" "done' (heap s (ps ! i)) \<noteq> []"
          "done' (h (ps ! i)) \<noteq> []"
      | (deliver) "threads s (Suc i) = Deliver k 0 i (fst (answer z h ps i)) (snd (answer z h ps i)) z"
          "done' (h (ps ! i)) \<noteq> []"
      | (exited) "threads s (Suc i) = Exited"
      unfolding child_ok_def by (cases "done' (heap s (ps ! i)) = []") auto
    then show ?thesis
    proof cases
      case wait
      then have "step (Run (Suc i) c) s = s" by (simp add: Await_def)
      with I show ?thesis by simp
    next
      case exited
      then have "step (Run (Suc i) c) s = s" by simp
      with I show ?thesis by simp
    next
      case await
      have st: "stored z (heap s (ps ! i)) = answer z h ps i"
        unfolding answer_def using C pn by (intro stored_core) simp
      have s': "s' = s\<lparr>heap := (heap s)(ps ! i := (heap s (ps ! i))\<lparr>done' := tl (done' (heap s (ps ! i)))\<rparr>),
          threads := (threads s)(Suc i := Deliver k 0 i (fst (answer z h ps i))
                                      (snd (answer z h ps i)) z)\<rparr>"
        unfolding s'_def using step_child_await [OF await(1,2), of c] by (simp add: st)
      have ok': "child_ok k z h ps s' j" if j: "j < length ps" for j
      proof (cases "j = i")
        case True
        with await(3) show ?thesis by (simp add: child_ok_def s')
      next
        case False
        with d i j have "ps ! j \<noteq> ps ! i" by (simp add: nth_eq_iff_index_eq)
        with False have "child_ok k z h ps s' j = child_ok k z h ps s j"
          by (intro child_ok_cong) (simp_all add: s')
        with ok [OF j] show ?thesis by simp
      qed
      have fin: "finished ps s' = finished ps s"
        using await(1) by (auto simp: finished_def s')
      have C': "\<forall>p. p \<noteq> n \<longrightarrow> core (heap s' p) = core (h p)"
        using C by (simp add: s' core_def)
      have "fan_inv L R k zk z h n ps s'"
        unfolding fan_inv_def fin
        using hi C' ok' cl ex pn i by (simp add: s' closer_ok_def)
      then show ?thesis by (simp only: s'_def)
    next
      case deliver
      have s': "s' = s\<lparr>frames := (frames s)(0 := deliver k i (fst (answer z h ps i))
                                    (snd (answer z h ps i)) z (frames s 0)),
          threads := (threads s)(Suc i := Exited)\<rparr>"
        unfolding s'_def by (rule step_deliver [OF deliver(1)])
      have ok': "child_ok k z h ps s' j" if j: "j < length ps" for j
      proof (cases "j = i")
        case True
        with deliver(2) show ?thesis by (simp add: child_ok_def s')
      next
        case False
        then have "child_ok k z h ps s' j = child_ok k z h ps s j"
          by (intro child_ok_cong) (simp_all add: s')
        with ok [OF j] show ?thesis by simp
      qed
      have fin: "finished ps s' = insert i (finished ps s)"
        using i by (auto simp: finished_def s')
      have nf: "i \<notin> finished ps s"
        using deliver(1) by (simp add: finished_def)
      have ex': "(threads s' 0 = Producer n (Join k 0 z) \<and> heap s' n = pending zk \<and>
         L (finished ps s') (threads s' (Suc (length ps)) = Exited) (frames s' 0)) \<or>
        (\<exists>v e. R v e \<and> out_phase n zk v e (threads s' 0) (heap s' n))"
        using ex
      proof
        assume a: "threads s 0 = Producer n (Join k 0 z) \<and> heap s n = pending zk \<and>
         L (finished ps s) (threads s (Suc (length ps)) = Exited) (frames s 0)"
        then have "L (insert i (finished ps s)) (threads s (Suc (length ps)) = Exited)
            (deliver k i (fst (answer z h ps i)) (snd (answer z h ps i)) z (frames s 0))"
          using A2 [OF _ i nf deliver(2)] by blast
        with a i show ?thesis unfolding fin by (simp add: s')
      next
        assume "\<exists>v e. R v e \<and> out_phase n zk v e (threads s 0) (heap s n)"
        then show ?thesis by (simp add: s')
      qed
      have "fan_inv L R k zk z h n ps s'"
        unfolding fan_inv_def
        using hi C ok' cl ex' i by (simp add: s' closer_ok_def)
      then show ?thesis by (simp only: s'_def)
    qed
  qed
qed


lemma fan_closer:
  assumes I: "fan_inv L R k zk z h n ps s"
    and A3: "\<And>X l. L X False l \<Longrightarrow> wg l = 0 \<Longrightarrow> L X True (l\<lparr>closed := True\<rparr>)"
  shows "fan_inv L R k zk z h n ps (step (Run (Suc (length ps)) c) s)"
proof (cases "threads s (Suc (length ps)) = Closer 0 \<and> wg (frames s 0) = 0")
  case False
  then have "threads s (Suc (length ps)) = Exited \<or>
      (threads s (Suc (length ps)) = Closer 0 \<and> wg (frames s 0) \<noteq> 0)"
    using I unfolding fan_inv_def closer_ok_def by auto
  then have "step (Run (Suc (length ps)) c) s = s" by auto
  with I show ?thesis by simp
next
  case True
  define s' where "s' = step (Run (Suc (length ps)) c) s"
  have s': "s' = s\<lparr>frames := (frames s)(0 := (frames s 0)\<lparr>closed := True\<rparr>),
       threads := (threads s)(Suc (length ps) := Exited)\<rparr>"
    unfolding s'_def using True by (intro step_closer) simp_all
  from I True have hi: "\<forall>t. length ps + 1 < t \<longrightarrow> threads s t = Exited"
    and C: "\<forall>p. p \<noteq> n \<longrightarrow> core (heap s p) = core (h p)"
    and ok: "\<And>j. j < length ps \<Longrightarrow> child_ok k z h ps s j"
    and ex: "(threads s 0 = Producer n (Join k 0 z) \<and> heap s n = pending zk \<and>
         L (finished ps s) (threads s (Suc (length ps)) = Exited) (frames s 0)) \<or>
        (\<exists>v e. R v e \<and> out_phase n zk v e (threads s 0) (heap s n))"
    unfolding fan_inv_def by auto
  have ok': "child_ok k z h ps s' j" if j: "j < length ps" for j
  proof -
    from j have "child_ok k z h ps s' j = child_ok k z h ps s j"
      by (intro child_ok_cong) (simp_all add: s')
    with ok [OF j] show ?thesis by simp
  qed
  have cl': "closer_ok k ps s'" by (simp add: closer_ok_def s')
  have fin: "finished ps s' = finished ps s"
    by (rule finished_cong) (simp add: s')
  have ex': "(threads s' 0 = Producer n (Join k 0 z) \<and> heap s' n = pending zk \<and>
         L (finished ps s') (threads s' (Suc (length ps)) = Exited) (frames s' 0)) \<or>
        (\<exists>v e. R v e \<and> out_phase n zk v e (threads s' 0) (heap s' n))"
    using ex
  proof
    assume a: "threads s 0 = Producer n (Join k 0 z) \<and> heap s n = pending zk \<and>
         L (finished ps s) (threads s (Suc (length ps)) = Exited) (frames s 0)"
    with True have "L (finished ps s) False (frames s 0)" by simp
    from A3 [OF this] True have "L (finished ps s) True ((frames s 0)\<lparr>closed := True\<rparr>)" by simp
    with a show ?thesis unfolding fin by (simp add: s')
  next
    assume "\<exists>v e. R v e \<and> out_phase n zk v e (threads s 0) (heap s n)"
    then show ?thesis by (simp add: s')
  qed
  have "fan_inv L R k zk z h n ps s'"
    unfolding fan_inv_def
    using hi C ok' ex' cl' by (simp add: s')
  then show ?thesis by (simp only: s'_def)
qed

lemma fan_exec:
  assumes I: "fan_inv L R k zk z h n ps s"
    and b: "\<forall>p\<in>set ps. p \<noteq> n"
    and A0: "L {} (k \<noteq> CAny) (new_locals (length ps) z)"
    and A1: "\<And>X b l c v e l'. L X b l \<Longrightarrow> join k c z l = Some ((v, e), l') \<Longrightarrow> R v e"
  shows "fan_inv L R k zk z h n ps (step (Run 0 c) s)"
proof -
  define s' where "s' = step (Run 0 c) s"
  from I have hi: "\<forall>t. length ps + 1 < t \<longrightarrow> threads s t = Exited"
    and C: "\<forall>p. p \<noteq> n \<longrightarrow> core (heap s p) = core (h p)"
    unfolding fan_inv_def by blast+
  from I have D: "(threads s 0 = Producer n (Start k ps z) \<and> (\<forall>t. 0 < t \<longrightarrow> threads s t = Exited) \<and>
       (\<forall>p. p \<noteq> n \<longrightarrow> heap s p = h p) \<and> heap s n = pending zk \<and>
       nextf s = 0 \<and> nextt s = 1) \<or>
      ((\<forall>i<length ps. child_ok k z h ps s i) \<and>
       closer_ok k ps s \<and>
       ((threads s 0 = Producer n (Join k 0 z) \<and> heap s n = pending zk \<and>
         L (finished ps s) (threads s (Suc (length ps)) = Exited) (frames s 0)) \<or>
        (\<exists>v e. R v e \<and> out_phase n zk v e (threads s 0) (heap s n))))"
    unfolding fan_inv_def by (elim conjE)
  have "(threads s 0 = Producer n (Start k ps z) \<and> (\<forall>t. 0 < t \<longrightarrow> threads s t = Exited) \<and>
       (\<forall>p. p \<noteq> n \<longrightarrow> heap s p = h p) \<and> heap s n = pending zk \<and>
       nextf s = 0 \<and> nextt s = 1) \<or>
      ((\<forall>i<length ps. child_ok k z h ps s i) \<and>
       closer_ok k ps s \<and>
       threads s 0 = Producer n (Join k 0 z) \<and> heap s n = pending zk \<and>
         L (finished ps s) (threads s (Suc (length ps)) = Exited) (frames s 0)) \<or>
      (\<exists>v e. (\<forall>i<length ps. child_ok k z h ps s i) \<and>
       closer_ok k ps s \<and>
        R v e \<and> out_phase n zk v e (threads s 0) (heap s n))"
    using D by (elim disjE conjE exE) (simp, simp, blast)
  then consider
      (start) "threads s 0 = Producer n (Start k ps z)" "\<forall>t. 0 < t \<longrightarrow> threads s t = Exited"
       "\<forall>p. p \<noteq> n \<longrightarrow> heap s p = h p" "heap s n = pending zk" "nextf s = 0" "nextt s = 1"
    | (join) "\<forall>i<length ps. child_ok k z h ps s i"
        "closer_ok k ps s"
        "threads s 0 = Producer n (Join k 0 z)" "heap s n = pending zk"
        "L (finished ps s) (threads s (Suc (length ps)) = Exited) (frames s 0)"
    | (out) v e where "\<forall>i<length ps. child_ok k z h ps s i"
        "closer_ok k ps s"
        "R v e" "out_phase n zk v e (threads s 0) (heap s n)"
    by (elim disjE conjE exE)
  then show ?thesis
  proof cases
    case start
    then show ?thesis by (intro fan_start C b A0)
  next
    case join
    show ?thesis
    proof (cases "join k c z (frames s 0)")
      case None
      with join(3) have "step (Run 0 c) s = s" by simp
      with I show ?thesis by simp
    next
      case (Some r)
      obtain v e l where r: "r = ((v, e), l)" by (cases r) auto
      have s': "s' = s\<lparr>frames := (frames s)(0 := l), threads := (threads s)(0 := Settling n v e)\<rparr>"
        unfolding s'_def using join(3) Some r by (intro step_join) simp_all
      have R: "R v e" using A1 [OF join(5)] Some r by simp
      have ok': "child_ok k z h ps s' j" if j: "j < length ps" for j
      proof -
        from j have "child_ok k z h ps s' j = child_ok k z h ps s j"
          by (intro child_ok_cong) (simp_all add: s')
        with join(1) j show ?thesis by simp
      qed
      have "out_phase n zk v e (threads s' 0) (heap s' n)"
        using join(4) by (simp add: out_phase_def s')
      with R have ex': "\<exists>v e. R v e \<and> out_phase n zk v e (threads s' 0) (heap s' n)" by blast
      have cl': "closer_ok k ps s'"
        using join(2) by (simp add: s' closer_ok_def)
      have hi': "\<forall>t. length ps + 1 < t \<longrightarrow> threads s' t = Exited"
        using hi by (simp add: s')
      have C': "\<forall>p. p \<noteq> n \<longrightarrow> core (heap s' p) = core (h p)"
        using C by (simp add: s')
      have "fan_inv L R k zk z h n ps s'"
        unfolding fan_inv_def
        using hi' C' ok' cl' ex' by blast
      then show ?thesis by (simp only: s'_def)
    qed
  next
    case out
    note S = out_phase_step [OF out(4), of c, folded s'_def]
    have ok': "child_ok k z h ps s' j" if j: "j < length ps" for j
    proof -
      from j b have "ps ! j \<noteq> n" by simp
      with S have "child_ok k z h ps s' j = child_ok k z h ps s j"
        by (intro child_ok_cong) simp_all
      with out(1) j show ?thesis by simp
    qed
    from S out(3) have ex': "\<exists>v e. R v e \<and> out_phase n zk v e (threads s' 0) (heap s' n)"
      by blast
    have cl': "closer_ok k ps s'"
      using out(2) S by (simp add: closer_ok_def)
    have hi': "\<forall>t. length ps + 1 < t \<longrightarrow> threads s' t = Exited"
      using hi S by simp
    have C': "\<forall>p. p \<noteq> n \<longrightarrow> core (heap s' p) = core (h p)"
      using C S by simp
    have "fan_inv L R k zk z h n ps s'"
      unfolding fan_inv_def
      using hi' C' ok' cl' ex' by blast
    then show ?thesis by (simp only: s'_def)
  qed
qed

lemma fan_step:
  assumes I: "fan_inv L R k zk z h n ps s"
    and d: "distinct ps" and b: "\<forall>p\<in>set ps. p \<noteq> n"
    and A0: "L {} (k \<noteq> CAny) (new_locals (length ps) z)"
    and A1: "\<And>X b l c v e l'. L X b l \<Longrightarrow> join k c z l = Some ((v, e), l') \<Longrightarrow> R v e"
    and A2: "\<And>X b l j. L X b l \<Longrightarrow> j < length ps \<Longrightarrow> j \<notin> X \<Longrightarrow> done' (h (ps ! j)) \<noteq> [] \<Longrightarrow>
           L (insert j X) b (deliver k j (fst (answer z h ps j)) (snd (answer z h ps j)) z l)"
    and A3: "\<And>X l. L X False l \<Longrightarrow> wg l = 0 \<Longrightarrow> L X True (l\<lparr>closed := True\<rparr>)"
  shows "fan_inv L R k zk z h n ps (step a s)"
proof (cases a)
  case Tick
  with I show ?thesis by (simp only: fan_tick)
next
  case (Run t c)
  have "t = 0 \<or> (\<exists>i. t = Suc i \<and> i < length ps) \<or> t = Suc (length ps) \<or> length ps + 1 < t"
    by presburger
  then consider "t = 0" | i where "t = Suc i" "i < length ps" | "t = Suc (length ps)"
    | "length ps + 1 < t"
    by blast
  then show ?thesis
  proof cases
    case 1
    with Run show ?thesis using fan_exec [OF I b A0 A1] by simp
  next
    case 2
    with Run show ?thesis using fan_child [OF I 2(2) d b A2] by simp
  next
    case 3
    with Run show ?thesis using fan_closer [OF I A3] by simp
  next
    case 4
    with I have "threads s t = Exited" unfolding fan_inv_def by blast
    with Run have "step a s = s" by simp
    with I show ?thesis by simp
  qed
qed

lemma fan_init:
  "fan_inv L R k zk z h n ps (snd (NewPromise zk (Start k ps z) (with_heap h n)))"
  unfolding fan_inv_def
  by (simp add: NewPromise_def with_heap_def init_def spawn_def)


lemma fan_reach:
  assumes d: "distinct ps" and b: "\<forall>p\<in>set ps. p \<noteq> n"
    and A0: "L {} (k \<noteq> CAny) (new_locals (length ps) z)"
    and A1: "\<And>X b l c v e l'. L X b l \<Longrightarrow> join k c z l = Some ((v, e), l') \<Longrightarrow> R v e"
    and A2: "\<And>X b l j. L X b l \<Longrightarrow> j < length ps \<Longrightarrow> j \<notin> X \<Longrightarrow> done' (h (ps ! j)) \<noteq> [] \<Longrightarrow>
           L (insert j X) b (deliver k j (fst (answer z h ps j)) (snd (answer z h ps j)) z l)"
    and A3: "\<And>X l. L X False l \<Longrightarrow> wg l = 0 \<Longrightarrow> L X True (l\<lparr>closed := True\<rparr>)"
  shows "fan_inv L R k zk z h n ps (run (snd (NewPromise zk (Start k ps z) (with_heap h n))) sched)"
proof (rule run_invariant [where I = "fan_inv L R k zk z h n ps"])
  show "fan_inv L R k zk z h n ps (snd (NewPromise zk (Start k ps z) (with_heap h n)))"
    by (rule fan_init)
next
  fix s :: "'a sys" and a
  assume "fan_inv L R k zk z h n ps s"
  then show "fan_inv L R k zk z h n ps (step a s)"
    by (rule fan_step [OF _ d b A0 A1 A2 A3])
qed

lemma core_signalled:
  "core (signalled zk v e) = (case e of None \<Rightarrow> (Fulfilled, v, None) | Some _ \<Rightarrow> (Rejected, zk, e))"
  by (cases e) (simp_all add: core_def signalled_def published_def settled_as_def pending_def)

lemma out_phase_core:
  assumes "out_phase n zk v e th P"
  shows "state P = Pending \<or> core P = core (signalled zk v e)"
  using assms unfolding out_phase_def
  by (elim disjE conjE; cases e)
     (simp_all add: core_def signalled_def published_def settled_as_def pending_def)

lemma fan_safe:
  assumes "fan_inv L R k zk z h n ps s"
  shows "state (heap s n) = Pending \<or> (\<exists>v e. R v e \<and> core (heap s n) = core (signalled zk v e))"
proof -
  from assms have "heap s n = pending zk \<or>
      (\<exists>v e. R v e \<and> out_phase n zk v e (threads s 0) (heap s n))"
    unfolding fan_inv_def by (elim conjE disjE) simp_all
  then show ?thesis
  proof
    assume "heap s n = pending zk"
    then show ?thesis by (simp add: pending_def)
  next
    assume "\<exists>v e. R v e \<and> out_phase n zk v e (threads s 0) (heap s n)"
    then obtain v e where R: "R v e" and o: "out_phase n zk v e (threads s 0) (heap s n)"
      by blast
    from out_phase_core [OF o] R show ?thesis by blast
  qed
qed

lemma fan_done:
  assumes "fan_inv L R k zk z h n ps s" and "threads s 0 = Exited"
  shows "\<exists>v e. R v e \<and> heap s n = signalled zk v e"
proof -
  from assms have "\<exists>v e. R v e \<and> out_phase n zk v e (threads s 0) (heap s n)"
    unfolding fan_inv_def by (elim conjE disjE) simp_all
  then obtain v e where R: "R v e" and o: "out_phase n zk v e (threads s 0) (heap s n)"
    by blast
  from o assms(2) have "heap s n = signalled zk v e"
    unfolding out_phase_def by (elim disjE conjE; cases e) simp_all
  with R show ?thesis by blast
qed


lemma fan_todo_less:
  assumes t: "t \<le> Suc (length ps)"
    and same: "\<And>u. u \<noteq> t \<Longrightarrow> threads s' u = threads s u"
    and clk: "clock s' = clock s"
    and less: "todo (clock s) (threads s' t) < todo (clock s) (threads s t)"
  shows "fan_todo ps s' < fan_todo ps s"
proof -
  let ?f = "\<lambda>s u. todo (clock s) (threads s u)"
  have le: "?f s' u \<le> ?f s u" for u
    using same [of u] less clk by (cases "u = t") simp_all
  have sum_le: "(\<Sum>i<length ps. ?f s' (Suc i)) \<le> (\<Sum>i<length ps. ?f s (Suc i))"
    by (intro sum_mono le)
  from t consider "t = 0" | i where "t = Suc i" "i < length ps" | "t = Suc (length ps)"
    by (cases t) (auto simp: less_Suc_eq_le le_less)
  then show ?thesis
  proof cases
    case 1
    with less clk have "?f s' 0 < ?f s 0" by simp
    with sum_le le [of "Suc (length ps)"] show ?thesis
      unfolding fan_todo_def by linarith
  next
    case 2
    have "(\<Sum>i<length ps. ?f s' (Suc i)) < (\<Sum>i<length ps. ?f s (Suc i))"
    proof (rule sum_strict_mono_ex1)
      show "finite {..<length ps}" by simp
      show "\<forall>x\<in>{..<length ps}. ?f s' (Suc x) \<le> ?f s (Suc x)" using le by simp
      show "\<exists>a\<in>{..<length ps}. ?f s' (Suc a) < ?f s (Suc a)"
        using 2 less clk by auto
    qed
    with le [of 0] le [of "Suc (length ps)"] show ?thesis
      unfolding fan_todo_def by linarith
  next
    case 3
    with less clk have "?f s' (Suc (length ps)) < ?f s (Suc (length ps))" by simp
    with sum_le le [of 0] show ?thesis
      unfolding fan_todo_def by linarith
  qed
qed

lemma fan_todo_start:
  assumes ns: "threads s 0 = Producer n (Start k ps z)" "\<forall>t. 0 < t \<longrightarrow> threads s t = Exited"
    "nextt s = 1"
  shows "fan_todo ps (step (Run 0 c) s) < fan_todo ps s"
proof -
  define s' where "s' = step (Run 0 c) s"
  let ?ts = "map (\<lambda>i. Child k (nextf s) i (ps ! i) z) [0..<length ps]
      @ (if k = CAny then [Closer (nextf s)] else [])"
  have th: "threads s' t = (if t = 0 then Producer n (Join k (nextf s) z)
      else if t < Suc (length ?ts) then ?ts ! (t - 1) else Exited)" for t
    unfolding s'_def using ns by (auto simp: spawn_def)
  have clk: "clock s' = clock s" unfolding s'_def using ns by (simp add: spawn_def)
  have ch: "threads s' (Suc i) = Child k (nextf s) i (ps ! i) z" if "i < length ps" for i
    using that by (simp add: th nth_append)
  have cl: "todo (clock s') (threads s' (Suc (length ps))) \<le> 1"
    by (simp add: th nth_append)
  have "(\<Sum>i<length ps. todo (clock s') (threads s' (Suc i))) = (\<Sum>i<length ps. 2)"
    by (rule sum.cong) (simp_all add: ch)
  then have sm: "(\<Sum>i<length ps. todo (clock s') (threads s' (Suc i))) = 2 * length ps"
    by simp
  have old: "fan_todo ps s = 2 * length ps + 7"
    using ns by (simp add: fan_todo_def)
  have "fan_todo ps s' \<le> 5 + 2 * length ps + 1"
    unfolding fan_todo_def sm using cl by (simp add: th)
  with old show ?thesis by (simp add: s'_def)
qed

lemma fan_progress:
  assumes I: "fan_inv L R k zk z h n ps s"
    and tok: "\<forall>i<length ps. done' (h (ps ! i)) \<noteq> []"
    and A4: "\<And>b l. L {..<length ps} b l \<Longrightarrow>
               join k False z l \<noteq> None \<or> (k = CAny \<and> \<not> b \<and> wg l = 0)"
  shows "threads s 0 = Exited \<or> (\<exists>a. fan_todo ps (step a s) < fan_todo ps s)"
proof -
  from I have D: "(threads s 0 = Producer n (Start k ps z) \<and> (\<forall>t. 0 < t \<longrightarrow> threads s t = Exited) \<and>
       (\<forall>p. p \<noteq> n \<longrightarrow> heap s p = h p) \<and> heap s n = pending zk \<and>
       nextf s = 0 \<and> nextt s = 1) \<or>
      ((\<forall>i<length ps. child_ok k z h ps s i) \<and>
       closer_ok k ps s \<and>
       ((threads s 0 = Producer n (Join k 0 z) \<and> heap s n = pending zk \<and>
         L (finished ps s) (threads s (Suc (length ps)) = Exited) (frames s 0)) \<or>
        (\<exists>v e. R v e \<and> out_phase n zk v e (threads s 0) (heap s n))))"
    unfolding fan_inv_def by (elim conjE)
  then show ?thesis
  proof
    assume "threads s 0 = Producer n (Start k ps z) \<and> (\<forall>t. 0 < t \<longrightarrow> threads s t = Exited) \<and>
       (\<forall>p. p \<noteq> n \<longrightarrow> heap s p = h p) \<and> heap s n = pending zk \<and>
       nextf s = 0 \<and> nextt s = 1"
    then have "fan_todo ps (step (Run 0 False) s) < fan_todo ps s"
      by (intro fan_todo_start) simp_all
    then show ?thesis by blast
  next
    assume st: "(\<forall>i<length ps. child_ok k z h ps s i) \<and>
       closer_ok k ps s \<and>
       ((threads s 0 = Producer n (Join k 0 z) \<and> heap s n = pending zk \<and>
         L (finished ps s) (threads s (Suc (length ps)) = Exited) (frames s 0)) \<or>
        (\<exists>v e. R v e \<and> out_phase n zk v e (threads s 0) (heap s n)))"
    then have ok: "\<And>j. j < length ps \<Longrightarrow> child_ok k z h ps s j"
      and cl: "closer_ok k ps s"
      and ex: "(threads s 0 = Producer n (Join k 0 z) \<and> heap s n = pending zk \<and>
         L (finished ps s) (threads s (Suc (length ps)) = Exited) (frames s 0)) \<or>
        (\<exists>v e. R v e \<and> out_phase n zk v e (threads s 0) (heap s n))"
      by simp_all
    show ?thesis
    proof (cases "\<exists>i<length ps. threads s (Suc i) \<noteq> Exited")
      case True
      then obtain i where i: "i < length ps" and ne: "threads s (Suc i) \<noteq> Exited" by blast
      from ok [OF i] ne tok i consider
          (await) "threads s (Suc i) = Child k 0 i (ps ! i) z" "done' (heap s (ps ! i)) \<noteq> []"
        | (deliver) "threads s (Suc i) = Deliver k 0 i (fst (answer z h ps i)) (snd (answer z h ps i)) z"
        unfolding child_ok_def by auto
      then have "fan_todo ps (step (Run (Suc i) False) s) < fan_todo ps s"
      proof cases
        case await
        show ?thesis
          unfolding step_child_await [OF await]
          by (rule fan_todo_less [where t = "Suc i"]) (use i await in simp_all)
      next
        case deliver
        show ?thesis
          unfolding step_deliver [OF deliver]
          by (rule fan_todo_less [where t = "Suc i"]) (use i deliver in simp_all)
      qed
      then show ?thesis by blast
    next
      case False
      then have fin: "finished ps s = {..<length ps}"
        by (auto simp: finished_def)
      from ex show ?thesis
      proof
        assume j: "threads s 0 = Producer n (Join k 0 z) \<and> heap s n = pending zk \<and>
         L (finished ps s) (threads s (Suc (length ps)) = Exited) (frames s 0)"
        then have "L {..<length ps} (threads s (Suc (length ps)) = Exited) (frames s 0)"
          by (simp add: fin)
        from A4 [OF this] show ?thesis
        proof
          assume "join k False z (frames s 0) \<noteq> None"
          then obtain v e l where r: "join k False z (frames s 0) = Some ((v, e), l)"
            by (cases "join k False z (frames s 0)") auto
          from j have t0: "threads s 0 = Producer n (Join k 0 z)" by simp
          have "fan_todo ps (step (Run 0 False) s) < fan_todo ps s"
            unfolding step_join [OF t0 r]
            by (rule fan_todo_less [where t = 0]) (use t0 in simp_all)
          then show ?thesis by blast
        next
          assume a: "k = CAny \<and> \<not> threads s (Suc (length ps)) = Exited \<and> wg (frames s 0) = 0"
          with cl have c: "threads s (Suc (length ps)) = Closer 0"
            by (simp add: closer_ok_def)
          from a have w: "wg (frames s 0) = 0" by simp
          have "fan_todo ps (step (Run (Suc (length ps)) False) s) < fan_todo ps s"
            unfolding step_closer [OF c w]
            by (rule fan_todo_less [where t = "Suc (length ps)"]) (use c in simp_all)
          then show ?thesis by blast
        qed
      next
        assume "\<exists>v e. R v e \<and> out_phase n zk v e (threads s 0) (heap s n)"
        then obtain v e where o: "out_phase n zk v e (threads s 0) (heap s n)" by blast
        note S = out_phase_step [OF o, of False]
        show ?thesis
        proof (cases "threads s 0 = Exited")
          case True
          then show ?thesis by simp
        next
          case False
          have "fan_todo ps (step (Run 0 False) s) < fan_todo ps s"
            by (rule fan_todo_less [where t = 0]) (use S False in simp_all)
          then show ?thesis by blast
        qed
      qed
    qed
  qed
qed

lemma fan_live:
  assumes d: "distinct ps" and b: "\<forall>p\<in>set ps. p \<noteq> n"
    and tok: "\<forall>i<length ps. done' (h (ps ! i)) \<noteq> []"
    and A0: "L {} (k \<noteq> CAny) (new_locals (length ps) z)"
    and A1: "\<And>X b l c v e l'. L X b l \<Longrightarrow> join k c z l = Some ((v, e), l') \<Longrightarrow> R v e"
    and A2: "\<And>X b l j. L X b l \<Longrightarrow> j < length ps \<Longrightarrow> j \<notin> X \<Longrightarrow> done' (h (ps ! j)) \<noteq> [] \<Longrightarrow>
           L (insert j X) b (deliver k j (fst (answer z h ps j)) (snd (answer z h ps j)) z l)"
    and A3: "\<And>X l. L X False l \<Longrightarrow> wg l = 0 \<Longrightarrow> L X True (l\<lparr>closed := True\<rparr>)"
    and A4: "\<And>b l. L {..<length ps} b l \<Longrightarrow>
               join k False z l \<noteq> None \<or> (k = CAny \<and> \<not> b \<and> wg l = 0)"
    and I: "fan_inv L R k zk z h n ps s"
  shows "\<exists>sched v e. R v e \<and> heap (run s sched) n = signalled zk v e"
proof -
  have "\<exists>as. fan_inv L R k zk z h n ps (run s as) \<and> threads (run s as) 0 = Exited"
  proof (rule can_finish [where I = "fan_inv L R k zk z h n ps" and m = "fan_todo ps", OF I])
    fix s :: "'a sys" and a
    assume "fan_inv L R k zk z h n ps s"
    then show "fan_inv L R k zk z h n ps (step a s)"
      by (rule fan_step [OF _ d b A0 A1 A2 A3])
  next
    fix s :: "'a sys"
    assume J: "fan_inv L R k zk z h n ps s"
    from fan_progress [OF J tok A4] J
    show "(fan_inv L R k zk z h n ps s \<and> threads s 0 = Exited) \<or>
        (\<exists>a. fan_todo ps (step a s) < fan_todo ps s)"
      by blast
  qed
  then obtain as where "fan_inv L R k zk z h n ps (run s as)" "threads (run s as) 0 = Exited"
    by blast
  from fan_done [OF this] show ?thesis by blast
qed

subsection \<open>\<open>AllSettled\<close>\<close>

lemma card_all: "X \<subseteq> {..<n} \<Longrightarrow> card X = n \<Longrightarrow> X = {..<(n::nat)}"
  by (simp add: card_subset_eq)

lemma card_fresh:
  assumes "X \<subseteq> {..<n}" and "j < n" and "j \<notin> X"
  shows "card (insert j X) = Suc (card X) \<and> card X < (n::nat)"
proof -
  have f: "finite X" using assms(1) by (rule finite_subset) simp
  have "insert j X \<subseteq> {..<n}" using assms by simp
  then have "card (insert j X) \<le> card {..<n}" by (intro card_mono) simp_all
  with f assms(3) show ?thesis by simp
qed

lemma settled_locals_join:
  assumes "settled_locals z h ps X b l" and "join CAllSettled c z l = Some ((v, e), l')"
  shows "v = Records (map (\<lambda>p. settle_record z (stored z (h p))) ps) \<and> e = None"
proof -
  from assms(2) have w: "wg l = 0" and v: "v = Records (settled l)" and e: "e = None"
    by (auto split: if_splits)
  from assms(1) w have X: "X = {..<length ps}"
    unfolding settled_locals_def by (intro card_all) simp_all
  have "settled l = map (\<lambda>p. settle_record z (stored z (h p))) ps"
  proof (rule nth_equalityI)
    show "length (settled l) = length (map (\<lambda>p. settle_record z (stored z (h p))) ps)"
      using assms(1) by (simp add: settled_locals_def)
  next
    fix i assume "i < length (settled l)"
    then have i: "i < length ps" using assms(1) by (simp add: settled_locals_def)
    with X have "i \<in> X" by simp
    with assms(1) have "settled l ! i = settle_record z (answer z h ps i)"
      unfolding settled_locals_def by blast
    with i show "settled l ! i = map (\<lambda>p. settle_record z (stored z (h p))) ps ! i"
      by (simp add: answer_def)
  qed
  with v e show ?thesis by simp
qed

lemma settled_locals_deliver:
  assumes L: "settled_locals z h ps X b l" and j: "j < length ps" and n: "j \<notin> X"
  shows "settled_locals z h ps (insert j X) b
           (deliver CAllSettled j (fst (answer z h ps j)) (snd (answer z h ps j)) z l)"
proof -
  from L have X: "X \<subseteq> {..<length ps}" and len: "length (settled l) = length ps"
    and old: "\<forall>i\<in>X. settled l ! i = settle_record z (answer z h ps i)"
    and w: "wg l + card X = length ps"
    unfolding settled_locals_def by simp_all
  note c = card_fresh [OF X j n]
  define l' where "l' = deliver CAllSettled j (fst (answer z h ps j)) (snd (answer z h ps j)) z l"
  have s: "settled l' = (settled l)[j := settle_record z (answer z h ps j)]"
    and w': "wg l' = wg l - 1"
    unfolding l'_def by (simp_all add: settle_record_def split: option.splits)
  have "\<forall>i\<in>insert j X. settled l' ! i = settle_record z (answer z h ps i)"
    using old len j by (auto simp: s nth_list_update)
  moreover have "wg l' + card (insert j X) = length ps"
    using w c unfolding w' by arith
  ultimately have "settled_locals z h ps (insert j X) b l'"
    unfolding settled_locals_def using X j len by (simp add: s)
  then show ?thesis by (simp only: l'_def)
qed

text \<open>
  \<open>AllSettled\<close> is called on distinct promises of the heap that no goroutine settles any
  more; the new promise is \<open>n\<close>. Under every schedule it is never \<open>Rejected\<close>, and
  when it is not \<open>Pending\<close> its value is the list of the inputs' records in input order,
  whatever the order in which the inputs' goroutines ran. When every input has settled
  with its completion signal in \<open>done\<close>, from each state reached some further schedule
  fulfils the promise with that list and sends its completion signal.
\<close>

lemma allsettled_total:
  assumes "distinct ps" and "\<forall>p\<in>set ps. p < n"
  shows "fst (AllSettled z ps (with_heap h n)) = n \<and>
    state (heap (run (snd (AllSettled z ps (with_heap h n))) sched) n) \<noteq> Rejected \<and>
    (state (heap (run (snd (AllSettled z ps (with_heap h n))) sched) n) = Pending \<or>
     value' (heap (run (snd (AllSettled z ps (with_heap h n))) sched) n)
       = Records (map (\<lambda>p. settle_record z (stored z (h p))) ps)) \<and>
    ((\<forall>p\<in>set ps. done' (h p) \<noteq> []) \<longrightarrow>
     (\<exists>sched'. heap (run (run (snd (AllSettled z ps (with_heap h n))) sched) sched') n
        = signalled (Records []) (Records (map (\<lambda>p. settle_record z (stored z (h p))) ps)) None))"
proof -
  let ?L = "settled_locals z h ps"
  let ?v = "Records (map (\<lambda>p. settle_record z (stored z (h p))) ps)"
  let ?R = "\<lambda>v e. v = ?v \<and> e = None"
  let ?s = "run (snd (AllSettled z ps (with_heap h n))) sched"
  have b: "\<forall>p\<in>set ps. p \<noteq> n" using assms(2) by auto
  have A0: "?L {} (CAllSettled \<noteq> CAny) (new_locals (length ps) z)"
    by (simp add: settled_locals_def new_locals_def)
  have A1: "\<And>X b l c v e l'. ?L X b l \<Longrightarrow> join CAllSettled c z l = Some ((v, e), l') \<Longrightarrow> ?R v e"
    by (rule settled_locals_join)
  have A2: "\<And>X b l j. ?L X b l \<Longrightarrow> j < length ps \<Longrightarrow> j \<notin> X \<Longrightarrow> done' (h (ps ! j)) \<noteq> [] \<Longrightarrow>
      ?L (insert j X) b (deliver CAllSettled j (fst (answer z h ps j)) (snd (answer z h ps j)) z l)"
    by (rule settled_locals_deliver)
  have A3: "\<And>X l. ?L X False l \<Longrightarrow> wg l = 0 \<Longrightarrow> ?L X True (l\<lparr>closed := True\<rparr>)"
    by (simp add: settled_locals_def)
  have A4: "\<And>b l. ?L {..<length ps} b l \<Longrightarrow>
      join CAllSettled False z l \<noteq> None \<or> (CAllSettled = CAny \<and> \<not> b \<and> wg l = 0)"
    by (simp add: settled_locals_def)
  have I: "fan_inv ?L ?R CAllSettled (Records []) z h n ps ?s"
    unfolding AllSettled_def by (rule fan_reach [OF assms(1) b A0 A1 A2 A3])
  have n: "fst (AllSettled z ps (with_heap h n)) = n"
    by (simp add: AllSettled_def NewPromise_def with_heap_def)
  from fan_safe [OF I]
  have "state (heap ?s n) = Pending \<or> core (heap ?s n) = core (signalled (Records []) ?v None)"
    by auto
  then have S: "state (heap ?s n) = Pending \<or> core (heap ?s n) = (Fulfilled, ?v, None)"
    by (simp add: core_signalled)
  then have S1: "state (heap ?s n) \<noteq> Rejected"
    by (auto simp: core_def)
  from S have S2: "state (heap ?s n) = Pending \<or> value' (heap ?s n) = ?v"
    by (auto simp: core_def)
  have S3: "(\<forall>p\<in>set ps. done' (h p) \<noteq> []) \<longrightarrow>
      (\<exists>sched'. heap (run ?s sched') n = signalled (Records []) ?v None)"
  proof
    assume "\<forall>p\<in>set ps. done' (h p) \<noteq> []"
    then have tok: "\<forall>i<length ps. done' (h (ps ! i)) \<noteq> []" by simp
    from fan_live [OF assms(1) b tok A0 A1 A2 A3 A4 I]
    show "\<exists>sched'. heap (run ?s sched') n = signalled (Records []) ?v None"
      by auto
  qed
  show ?thesis by (rule conjI [OF n conjI [OF S1 conjI [OF S2 S3]]])
qed

lemma allsettled_total_example:
  "distinct [0, 1 :: nat] \<and>
   state (heap (run (snd (AllSettled (Val 0) [0, 1]
       (with_heap (\<lambda>p. if p = 0 then resolved (Val (1::nat))
                       else rejected (Val 0) (Some (Custom ''boom''))) 2)))
     [Run 0 False, Run 2 False, Run 2 False, Run 1 False]) 2) \<noteq> Rejected \<and>
   (\<exists>sched'. heap (run (run (snd (AllSettled (Val 0) [0, 1]
       (with_heap (\<lambda>p. if p = 0 then resolved (Val (1::nat))
                       else rejected (Val 0) (Some (Custom ''boom''))) 2)))
     [Run 0 False, Run 2 False, Run 2 False, Run 1 False]) sched') 2
     = signalled (Records [])
         (Records [PromiseResult ''fulfilled'' (Val 1) None,
                   PromiseResult ''rejected'' (Val 0) (Some (Custom ''boom''))]) None)"
  using allsettled_total [of "[0, 1]" 2 "Val 0"
      "\<lambda>p. if p = 0 then resolved (Val (1::nat)) else rejected (Val 0) (Some (Custom ''boom''))"
      "[Run 0 False, Run 2 False, Run 2 False, Run 1 False]"]
  by (simp add: settle_record_def stored_def resolved_def rejected_def)

subsection \<open>\<open>All\<close>\<close>

lemma run_ticks: "run s (replicate k Tick) = s\<lparr>clock := clock s + k\<rparr>"
  by (induction k arbitrary: s) simp_all

lemma all_locals_join:
  assumes L: "all_locals z h ps X b l" and j: "join CAll c z l = Some ((v, e), l')"
  shows "(\<forall>p\<in>set ps. done' (h p) \<noteq> []) \<and> (v, e) = all_result (map (\<lambda>p. stored z (h p)) ps)"
proof -
  let ?rs = "map (\<lambda>p. stored z (h p)) ps"
  from j have w: "wg l = 0"
    and ve: "(v, e) = (case find (\<lambda>e. e \<noteq> None) (errors l) of
                Some e \<Rightarrow> (Slice [], e) | None \<Rightarrow> (Slice (results l), None))"
    by (auto split: if_splits)
  from L have sub: "X \<subseteq> {i. i < length ps \<and> done' (h (ps ! i)) \<noteq> []}"
    and lr: "length (results l) = length ps" and le: "length (errors l) = length ps"
    and er: "\<forall>i<length ps. errors l ! i = (if i \<in> X then snd (answer z h ps i) else None)"
    and re: "\<forall>i\<in>X. snd (answer z h ps i) = None \<longrightarrow> results l ! i = fst (answer z h ps i)"
    and c: "wg l + card X = length ps"
    unfolding all_locals_def by simp_all
  have "X \<subseteq> {..<length ps}" using sub by auto
  with c w have X: "X = {..<length ps}" by (intro card_all) simp_all
  have tok: "\<forall>p\<in>set ps. done' (h p) \<noteq> []"
  proof
    fix p assume "p \<in> set ps"
    then obtain i where i: "i < length ps" "ps ! i = p" by (auto simp: in_set_conv_nth)
    with X have "i \<in> X" by simp
    with sub i show "done' (h p) \<noteq> []" by auto
  qed
  have errs: "errors l = map snd ?rs"
  proof (rule nth_equalityI)
    show "length (errors l) = length (map snd ?rs)" using le by simp
  next
    fix i assume "i < length (errors l)"
    then have i: "i < length ps" using le by simp
    with er X have "errors l ! i = snd (answer z h ps i)" by simp
    with i show "errors l ! i = map snd ?rs ! i" by (simp add: answer_def)
  qed
  show ?thesis
  proof (cases "find (\<lambda>e. e \<noteq> None) (map snd ?rs)")
    case (Some x)
    with ve errs have "(v, e) = all_result ?rs" by (simp add: all_result_def)
    with tok show ?thesis by simp
  next
    case None
    then have nn: "\<forall>i<length ps. snd (answer z h ps i) = None"
      by (auto simp: find_None_iff answer_def)
    have "results l = map fst ?rs"
    proof (rule nth_equalityI)
      show "length (results l) = length (map fst ?rs)" using lr by simp
    next
      fix i assume "i < length (results l)"
      then have i: "i < length ps" using lr by simp
      with X have "i \<in> X" by simp
      with re nn i have "results l ! i = fst (answer z h ps i)" by simp
      with i show "results l ! i = map fst ?rs ! i" by (simp add: answer_def)
    qed
    with ve errs None have "(v, e) = all_result ?rs" by (simp add: all_result_def)
    with tok show ?thesis by simp
  qed
qed

lemma all_locals_deliver:
  assumes L: "all_locals z h ps X b l" and j: "j < length ps" and n: "j \<notin> X"
    and t: "done' (h (ps ! j)) \<noteq> []"
  shows "all_locals z h ps (insert j X) b
           (deliver CAll j (fst (answer z h ps j)) (snd (answer z h ps j)) z l)"
proof -
  from L have sub: "X \<subseteq> {i. i < length ps \<and> done' (h (ps ! i)) \<noteq> []}"
    and lr: "length (results l) = length ps" and le: "length (errors l) = length ps"
    and er: "\<forall>i<length ps. errors l ! i = (if i \<in> X then snd (answer z h ps i) else None)"
    and re: "\<forall>i\<in>X. snd (answer z h ps i) = None \<longrightarrow> results l ! i = fst (answer z h ps i)"
    and w: "wg l + card X = length ps"
    unfolding all_locals_def by simp_all
  have X: "X \<subseteq> {..<length ps}" using sub by auto
  note c = card_fresh [OF X j n]
  define l' where "l' = deliver CAll j (fst (answer z h ps j)) (snd (answer z h ps j)) z l"
  have w': "wg l' = wg l - 1"
    unfolding l'_def by (simp split: option.splits)
  have cnt: "wg l' + card (insert j X) = length ps"
    using w c unfolding w' by arith
  have sub': "insert j X \<subseteq> {i. i < length ps \<and> done' (h (ps ! i)) \<noteq> []}"
    using sub j t by simp
  show ?thesis
  proof (cases "snd (answer z h ps j)")
    case None
    then have r: "results l' = (results l)[j := fst (answer z h ps j)]"
      and e: "errors l' = errors l"
      unfolding l'_def by simp_all
    have "\<forall>i<length ps. errors l' ! i = (if i \<in> insert j X then snd (answer z h ps i) else None)"
      using er n None by (auto simp: e)
    moreover have "\<forall>i\<in>insert j X. snd (answer z h ps i) = None \<longrightarrow>
        results l' ! i = fst (answer z h ps i)"
      using re lr j by (auto simp: r nth_list_update)
    ultimately have "all_locals z h ps (insert j X) b l'"
      unfolding all_locals_def using sub' cnt lr le by (simp add: r e)
    then show ?thesis by (simp only: l'_def)
  next
    case (Some x)
    then have r: "results l' = results l"
      and e: "errors l' = (errors l)[j := snd (answer z h ps j)]"
      unfolding l'_def by simp_all
    have "\<forall>i<length ps. errors l' ! i = (if i \<in> insert j X then snd (answer z h ps i) else None)"
      using er le j by (auto simp: e nth_list_update)
    moreover have "\<forall>i\<in>insert j X. snd (answer z h ps i) = None \<longrightarrow>
        results l' ! i = fst (answer z h ps i)"
      using re Some by (auto simp: r)
    ultimately have "all_locals z h ps (insert j X) b l'"
      unfolding all_locals_def using sub' cnt lr le by (simp add: r e)
    then show ?thesis by (simp only: l'_def)
  qed
qed

text \<open>
  \<open>All\<close> is called on distinct promises of the heap that no goroutine settles any more;
  the new promise is \<open>n\<close>. Under every schedule it stays \<open>Pending\<close> unless every input
  has its completion signal in \<open>done\<close>, also when an input is already rejected: the
  closure returns only after \<open>wg.Wait()\<close>. When it settles, it is rejected with the
  error of the first rejected input in input order, or fulfilled with the values in input
  order; and with every input's signal there, from each state reached some further
  schedule settles it so.
\<close>

lemma all_waits_for_all:
  assumes "distinct ps" and "\<forall>p\<in>set ps. p < n"
  shows "fst (All z ps (with_heap h n)) = n \<and>
    (state (heap (run (snd (All z ps (with_heap h n))) sched) n) = Pending \<or>
     ((\<forall>p\<in>set ps. done' (h p) \<noteq> []) \<and>
      core (heap (run (snd (All z ps (with_heap h n))) sched) n)
        = core (signalled (Slice []) (fst (all_result (map (\<lambda>p. stored z (h p)) ps)))
                  (snd (all_result (map (\<lambda>p. stored z (h p)) ps)))))) \<and>
    ((\<forall>p\<in>set ps. done' (h p) \<noteq> []) \<longrightarrow>
     (\<exists>sched'. heap (run (run (snd (All z ps (with_heap h n))) sched) sched') n
        = signalled (Slice []) (fst (all_result (map (\<lambda>p. stored z (h p)) ps)))
            (snd (all_result (map (\<lambda>p. stored z (h p)) ps)))))"
proof -
  let ?L = "all_locals z h ps"
  let ?r = "all_result (map (\<lambda>p. stored z (h p)) ps)"
  let ?R = "\<lambda>v e. (\<forall>p\<in>set ps. done' (h p) \<noteq> []) \<and> (v, e) = ?r"
  let ?s = "run (snd (All z ps (with_heap h n))) sched"
  have b: "\<forall>p\<in>set ps. p \<noteq> n" using assms(2) by auto
  have A0: "?L {} (CAll \<noteq> CAny) (new_locals (length ps) z)"
    by (simp add: all_locals_def new_locals_def)
  have A1: "\<And>X b l c v e l'. ?L X b l \<Longrightarrow> join CAll c z l = Some ((v, e), l') \<Longrightarrow> ?R v e"
    by (rule all_locals_join)
  have A2: "\<And>X b l j. ?L X b l \<Longrightarrow> j < length ps \<Longrightarrow> j \<notin> X \<Longrightarrow> done' (h (ps ! j)) \<noteq> [] \<Longrightarrow>
      ?L (insert j X) b (deliver CAll j (fst (answer z h ps j)) (snd (answer z h ps j)) z l)"
    by (rule all_locals_deliver)
  have A3: "\<And>X l. ?L X False l \<Longrightarrow> wg l = 0 \<Longrightarrow> ?L X True (l\<lparr>closed := True\<rparr>)"
    by (simp add: all_locals_def)
  have A4: "\<And>b l. ?L {..<length ps} b l \<Longrightarrow>
      join CAll False z l \<noteq> None \<or> (CAll = CAny \<and> \<not> b \<and> wg l = 0)"
    by (simp add: all_locals_def)
  have I: "fan_inv ?L ?R CAll (Slice []) z h n ps ?s"
    unfolding All_def
    by (rule fan_reach [where L = "?L" and R = "?R", OF assms(1) b A0 A1 A2 A3])
  have n: "fst (All z ps (with_heap h n)) = n"
    by (simp add: All_def NewPromise_def with_heap_def)
  from fan_safe [OF I]
  have S1: "state (heap ?s n) = Pending \<or>
     ((\<forall>p\<in>set ps. done' (h p) \<noteq> []) \<and>
      core (heap ?s n) = core (signalled (Slice []) (fst ?r) (snd ?r)))"
    by (elim disjE exE conjE) (simp, metis fst_conv snd_conv)
  have S2: "(\<forall>p\<in>set ps. done' (h p) \<noteq> []) \<longrightarrow>
      (\<exists>sched'. heap (run ?s sched') n = signalled (Slice []) (fst ?r) (snd ?r))"
  proof
    assume "\<forall>p\<in>set ps. done' (h p) \<noteq> []"
    then have tok: "\<forall>i<length ps. done' (h (ps ! i)) \<noteq> []" by simp
    have "\<exists>sched' v e. ?R v e \<and> heap (run ?s sched') n = signalled (Slice []) v e"
      by (rule fan_live [where L = "?L" and R = "?R" and k = CAll, OF assms(1) b tok])
         (fact A0, fact A1, fact A2, fact A3, fact A4, fact I)
    then obtain sched' v e where "(v, e) = ?r" "heap (run ?s sched') n = signalled (Slice []) v e"
      by blast
    then have "heap (run ?s sched') n = signalled (Slice []) (fst ?r) (snd ?r)"
      by (metis fst_conv snd_conv)
    then show "\<exists>sched'. heap (run ?s sched') n = signalled (Slice []) (fst ?r) (snd ?r)"
      by blast
  qed
  show ?thesis by (rule conjI [OF n conjI [OF S1 S2]])
qed


lemma all_waits_for_all_example:
  "distinct [0, 1 :: nat] \<and>
   state (heap (run (snd (All (Val 0) [0, 1]
       (with_heap (\<lambda>p. if p = 0 then pending (Val (0::nat))
                       else rejected (Val 0) (Some (Custom ''boom''))) 2)))
     [Run 0 False, Run 2 False, Run 2 False, Run 1 False, Run 0 False]) 2) = Pending \<and>
   (\<exists>sched'. heap (run (run (snd (All (Val 0) [0, 1]
       (with_heap (\<lambda>p. if p = 0 then resolved (Val (1::nat))
                       else rejected (Val 0) (Some (Custom ''boom''))) 2)))
     [Run 0 False, Run 2 False]) sched') 2
     = signalled (Slice []) (Slice []) (Some (Custom ''boom'')))"
  using all_waits_for_all [of "[0, 1]" 2 "Val 0"
      "\<lambda>p. if p = 0 then pending (Val (0::nat)) else rejected (Val 0) (Some (Custom ''boom''))"
      "[Run 0 False, Run 2 False, Run 2 False, Run 1 False, Run 0 False]"]
    all_waits_for_all [of "[0, 1]" 2 "Val 0"
      "\<lambda>p. if p = 0 then resolved (Val (1::nat)) else rejected (Val 0) (Some (Custom ''boom''))"
      "[Run 0 False, Run 2 False]"]
  by (simp add: all_result_def stored_def resolved_def rejected_def pending_def)

lemma exec_clock: "exec c th s = Some (th', s') \<Longrightarrow> clock s' = clock s"
proof (cases th)
  case (Producer p ex)
  assume "exec c th s = Some (th', s')"
  with Producer show ?thesis
    by (cases ex)
       (auto simp: upd_def updf_def spawn_def
             split: if_splits option.splits sum.splits outcome.splits prod.splits)
next
  case (Settling p v e)
  assume "exec c th s = Some (th', s')"
  with Settling show ?thesis by (cases e) (auto simp: upd_def)
qed (auto simp: upd_def updf_def Await_def
       split: if_splits option.splits sum.splits list.splits)

lemma step_clock: "clock s \<le> clock (step a s)"
proof (cases a)
  case Tick
  then show ?thesis by simp
next
  case (Run t c)
  show ?thesis
  proof (cases "exec c (threads s t) s")
    case None
    with Run show ?thesis by simp
  next
    case (Some r)
    then obtain th' s' where e: "exec c (threads s t) s = Some (th', s')" by (cases r) simp
    from exec_clock [OF e] Run e show ?thesis by simp
  qed
qed

lemma all_slow_fail_init: "all_slow_fail_inv all_slow_fail"
  by (simp add: all_slow_fail_inv_def all_slow_fail_def NewPromise_def Reject_def All_def
      spawn_def init_def rejected_def)

lemma all_slow_fail_step:
  assumes I: "all_slow_fail_inv s"
  shows "all_slow_fail_inv (step a s)"
proof (cases "100 \<le> clock s")
  case True
  with step_clock [of s a] have "100 \<le> clock (step a s)" by simp
  then show ?thesis by (simp add: all_slow_fail_inv_def)
next
  case False
  with I have J: "(\<forall>t. 4 \<le> t \<longrightarrow> threads s t = Exited) \<and>
      heap s 0 = pending (Val 0) \<and> state (heap s 1) = Rejected \<and>
      value' (heap s 1) = Val 0 \<and> error (heap s 1) = Some (Custom ''boom'') \<and>
      heap s 2 = pending (Slice []) \<and>
      (threads s 0 = Producer 0 (Compute 100 (Returns (Val 1) None)) \<or>
       (\<exists>w. 100 \<le> w \<and> threads s 0 = Producer 0 (Sleeping w (Returns (Val 1) None)))) \<and>
      ((threads s 1 = Producer 2 (Start CAll [0, 1] (Val 0)) \<and> nextf s = 0 \<and> nextt s = 2 \<and>
        threads s 2 = Exited \<and> threads s 3 = Exited) \<or>
       (threads s 1 = Producer 2 (Join CAll 0 (Val 0)) \<and>
        threads s 2 = Child CAll 0 0 0 (Val 0) \<and>
        ((threads s 3 = Child CAll 0 1 1 (Val 0) \<and> wg (frames s 0) = 2) \<or>
         (\<exists>v e. threads s 3 = Deliver CAll 0 1 v e (Val 0) \<and> wg (frames s 0) = 2) \<or>
         (threads s 3 = Exited \<and> wg (frames s 0) = 1))))"
    by (simp add: all_slow_fail_inv_def)
  show ?thesis
  proof (cases a)
    case Tick
    with J show ?thesis
      unfolding all_slow_fail_inv_def by simp
  next
    case (Run t c)
    consider "t = 0" | "t = 1" | "t = 2" | "t = 3" | "4 \<le> t" by linarith
    then show ?thesis
    proof cases
      case 1
      with J Run False show ?thesis
        unfolding all_slow_fail_inv_def
        by (elim conjE disjE exE) simp_all
    next
      case 2
      with J Run show ?thesis
        unfolding all_slow_fail_inv_def
        by (elim conjE disjE exE) (simp_all add: spawn_def new_locals_def)
    next
      case 3
      with J Run show ?thesis
        unfolding all_slow_fail_inv_def
        by (elim conjE disjE exE) (simp_all add: Await_def pending_def)
    next
      case 4
      with J Run show ?thesis
        unfolding all_slow_fail_inv_def
        by (elim conjE disjE exE)
           (simp_all add: Await_def upd_def updf_def stored_def split: list.splits option.splits)
    next
      case 5
      with J Run show ?thesis
        unfolding all_slow_fail_inv_def by simp
    qed
  qed
qed

lemma all_slow_fail_reach: "all_slow_fail_inv (run all_slow_fail sched)"
  by (rule run_invariant [where I = all_slow_fail_inv])
     (auto intro: all_slow_fail_init all_slow_fail_step)

lemma all_slow_fail_99:
  "threads all_slow_fail_99 0 = Producer 0 (Sleeping 100 (Returns (Val 1) None))"
  "threads all_slow_fail_99 (Suc 0) = Producer 2 (Join CAll 0 (Val 0))"
  "threads all_slow_fail_99 2 = Child CAll 0 0 0 (Val 0)"
  "threads all_slow_fail_99 3 = Exited"
  "nextt all_slow_fail_99 = 4"
  "clock all_slow_fail_99 = 99"
  "heap all_slow_fail_99 0 = pending (Val 0)"
  "heap all_slow_fail_99 (Suc 0) = (rejected (Val 0) (Some (Custom ''boom'')))\<lparr>done' := []\<rparr>"
  "heap all_slow_fail_99 2 = pending (Slice [])"
  "wg (frames all_slow_fail_99 0) = 1"
  "errors (frames all_slow_fail_99 0) = [None, Some (Custom ''boom'')]"
  by (simp_all add: all_slow_fail_99_def all_slow_fail_def run_ticks NewPromise_def Reject_def
      All_def spawn_def init_def upd_def updf_def Await_def stored_def new_locals_def
      pending_def rejected_def nth_append)

text \<open>
  C4 (the code departs from it). In \<open>All(f_ok_after_100, f_fails_immediately)\<close> the
  promises are 0, 1 and 2 in this order. Under every schedule, as long as fewer than 100
  time units have passed, the second input is \<open>Rejected\<close> with its error and the promise
  of \<open>All\<close> is still \<open>Pending\<close>: the closure is at \<open>wg.Wait()\<close> until the goroutine
  started for the first input has returned from \<open>Await\<close>. In particular, after every
  goroutine has run as far as it can and 99 time units have passed, no goroutine can take
  a step and the promise of \<open>All\<close> is \<open>Pending\<close>; it is rejected with the error of the
  second input only after the first input has settled at time 100.
\<close>

theorem all_not_fail_fast:
  "(let (p0, s) = NewPromise (Val 0) (Compute 100 (Returns (Val 1) None)) (init :: nat sys);
        (p1, s) = Reject (Val 0) (Some (Custom ''boom'')) s;
        (q, s) = All (Val 0) [p0, p1] s
    in (p0, p1, q)) = (0, 1, 2) \<and>
   (clock (run all_slow_fail sched) < 100 \<longrightarrow>
      core (heap (run all_slow_fail sched) 1) = (Rejected, Val 0, Some (Custom ''boom'')) \<and>
      state (heap (run all_slow_fail sched) 2) = Pending) \<and>
   state (heap all_slow_fail_99 1) = Rejected \<and> clock all_slow_fail_99 = 99 \<and>
   quiescent all_slow_fail_99 \<and> state (heap all_slow_fail_99 2) = Pending \<and>
   core (heap (run all_slow_fail_99
                [Tick, Run 0 False, Run 0 False, Run 0 False, Run 0 False, Run 2 False, Run 2 False,
                 Run 1 False, Run 1 False]) 2)
     = (Rejected, Slice [], Some (Custom ''boom''))"
proof -
  have a: "(let (p0, s) = NewPromise (Val 0) (Compute 100 (Returns (Val 1) None)) (init :: nat sys);
        (p1, s) = Reject (Val 0) (Some (Custom ''boom'')) s;
        (q, s) = All (Val 0) [p0, p1] s
    in (p0, p1, q)) = (0, 1, 2)"
    by (simp add: NewPromise_def Reject_def All_def spawn_def init_def)
  have u: "clock (run all_slow_fail sched) < 100 \<longrightarrow>
      core (heap (run all_slow_fail sched) 1) = (Rejected, Val 0, Some (Custom ''boom'')) \<and>
      state (heap (run all_slow_fail sched) 2) = Pending"
    using all_slow_fail_reach [of sched] unfolding all_slow_fail_inv_def
    by (elim disjE conjE exE) (simp_all add: pending_def core_def)
  have q: "quiescent all_slow_fail_99"
    unfolding quiescent_def
  proof (intro allI impI)
    fix t c assume "t < nextt all_slow_fail_99"
    then have "t = 0 \<or> t = 1 \<or> t = 2 \<or> t = 3" by (simp add: all_slow_fail_99(5)) arith
    then show "exec c (threads all_slow_fail_99 t) all_slow_fail_99 = None"
      by (elim disjE) (simp_all add: all_slow_fail_99 Await_def pending_def)
  qed
  have r: "core (heap (run all_slow_fail_99
                [Tick, Run 0 False, Run 0 False, Run 0 False, Run 0 False, Run 2 False, Run 2 False,
                 Run 1 False, Run 1 False]) 2)
     = (Rejected, Slice [], Some (Custom ''boom''))"
    by (simp add: all_slow_fail_99 upd_def updf_def Await_def stored_def pending_def core_def)
  have f: "state (heap all_slow_fail_99 1) = Rejected \<and> clock all_slow_fail_99 = 99 \<and>
      state (heap all_slow_fail_99 2) = Pending"
    by (simp add: all_slow_fail_99 pending_def rejected_def)
  from a u q r f show ?thesis by (intro conjI) simp_all
qed

theorem all_not_fail_fast_witness:
  "clock all_slow_fail_99 < 100 \<and>
   core (heap all_slow_fail_99 1) = (Rejected, Val 0, Some (Custom ''boom'')) \<and>
   state (heap all_slow_fail_99 2) = Pending \<and> quiescent all_slow_fail_99"
  using all_not_fail_fast
    [of "[Run 0 False, Run 1 False, Run 2 False, Run 3 False, Run 3 False, Run 1 False]
         @ replicate 99 Tick", folded all_slow_fail_99_def]
  by (simp add: all_slow_fail_99(6))

subsection \<open>\<open>Any\<close>\<close>

lemma failed_insert:
  "failed z h ps (insert j X) =
     (if snd (answer z h ps j) \<noteq> None then insert j (failed z h ps X) else failed z h ps X)"
  by (auto simp: failed_def)

lemma failed_all:
  assumes "failed z h ps {..<length ps} = {..<length ps}"
  shows "\<forall>p\<in>set ps. snd (stored z (h p)) \<noteq> None"
proof
  fix p assume "p \<in> set ps"
  then obtain i where i: "i < length ps" "ps ! i = p" by (auto simp: in_set_conv_nth)
  then have "i \<in> failed z h ps {..<length ps}" using assms by simp
  with i show "snd (stored z (h p)) \<noteq> None" by (simp add: failed_def answer_def)
qed

lemma errs_all:
  "image_mset (\<lambda>i. the (snd (answer z h ps i))) (mset_set {..<length ps})
     = mset (map (\<lambda>p. the (snd (stored z (h p)))) ps)"
proof -
  have "map (\<lambda>p. the (snd (stored z (h p)))) ps
      = map (\<lambda>i. the (snd (answer z h ps i))) [0..<length ps]"
    by (rule nth_equalityI) (simp_all add: answer_def)
  then show ?thesis by (simp add: atLeast0LessThan)
qed

lemma any_locals_join:
  assumes L: "any_locals z h ps X b l" and j: "join CAny c z l = Some ((v, e), l')"
  shows "any_result z h ps v e"
proof (cases "result_ch l")
  case (Cons res rest)
  with j have ve: "v = res" "e = None" by simp_all
  from L Cons obtain i where i: "i \<in> X" "snd (answer z h ps i) = None"
      "result_ch l = [fst (answer z h ps i)]"
    unfolding any_locals_def by auto
  from L i(1) have "i < length ps" unfolding any_locals_def by auto
  then have "ps ! i \<in> set ps" by simp
  with i Cons ve show ?thesis unfolding any_result_def answer_def by auto
next
  case Nil
  with j have c: "closed l" and ve: "v = z" "e = Some (AllRejected (errs l))"
    by (auto split: if_splits)
  from L c have X: "X = {..<length ps}" unfolding any_locals_def by simp
  from L Nil have f: "failed z h ps X = X" unfolding any_locals_def by auto
  from L have "mset (errs l) =
      image_mset (\<lambda>i. the (snd (answer z h ps i))) (mset_set (failed z h ps X))"
    unfolding any_locals_def by simp
  with f X have m: "mset (errs l) = mset (map (\<lambda>p. the (snd (stored z (h p)))) ps)"
    by (simp only: errs_all)
  from f X have "\<forall>p\<in>set ps. snd (stored z (h p)) \<noteq> None"
    by (intro failed_all) simp
  with m ve show ?thesis unfolding any_result_def by blast
qed

lemma any_locals_deliver:
  assumes L: "any_locals z h ps X b l" and j: "j < length ps" and n: "j \<notin> X"
  shows "any_locals z h ps (insert j X) b
           (deliver CAny j (fst (answer z h ps j)) (snd (answer z h ps j)) z l)"
proof -
  from L have X: "X \<subseteq> {..<length ps}" and w: "wg l + card X = length ps"
    and cl: "closed l = b" and bX: "b \<longrightarrow> X = {..<length ps}"
    and er: "mset (errs l) =
      image_mset (\<lambda>i. the (snd (answer z h ps i))) (mset_set (failed z h ps X))"
    and rc: "(result_ch l = [] \<and> failed z h ps X = X) \<or>
      (\<exists>i\<in>X. snd (answer z h ps i) = None \<and> result_ch l = [fst (answer z h ps i)])"
    unfolding any_locals_def by simp_all
  note c = card_fresh [OF X j n]
  have nb: "\<not> b" using bX j n by auto
  have "failed z h ps X \<subseteq> {..<length ps}"
    using X by (auto simp: failed_def)
  then have fin: "finite (failed z h ps X)"
    by (rule finite_subset) simp
  have jf: "j \<notin> failed z h ps X" using n by (simp add: failed_def)
  define l' where "l' = deliver CAny j (fst (answer z h ps j)) (snd (answer z h ps j)) z l"
  have w': "wg l' = wg l - 1" and cl': "closed l' = closed l"
    unfolding l'_def by (simp_all split: option.splits)
  have cnt: "wg l' + card (insert j X) = length ps"
    using w c unfolding w' by arith
  have X': "insert j X \<subseteq> {..<length ps}" using X j by simp
  show ?thesis
  proof (cases "snd (answer z h ps j)")
    case None
    then have e': "errs l' = errs l"
      and r': "result_ch l' = (if result_ch l = [] then [fst (answer z h ps j)] else result_ch l)"
      unfolding l'_def by simp_all
    have f': "failed z h ps (insert j X) = failed z h ps X"
      using None by (simp add: failed_insert)
    have "\<exists>i\<in>insert j X. snd (answer z h ps i) = None \<and> result_ch l' = [fst (answer z h ps i)]"
      using rc None by (auto simp: r')
    then have "any_locals z h ps (insert j X) b l'"
      unfolding any_locals_def using X' cnt cl nb er by (simp add: cl' e' f')
    then show ?thesis by (simp only: l'_def)
  next
    case (Some x)
    then have e': "errs l' = errs l @ [x]" and r': "result_ch l' = result_ch l"
      unfolding l'_def by simp_all
    have f': "failed z h ps (insert j X) = insert j (failed z h ps X)"
      using Some by (simp add: failed_insert)
    have m: "mset (errs l') = image_mset (\<lambda>i. the (snd (answer z h ps i)))
        (mset_set (failed z h ps (insert j X)))"
      using er fin jf Some by (simp add: e' f')
    have "(result_ch l' = [] \<and> failed z h ps (insert j X) = insert j X) \<or>
      (\<exists>i\<in>insert j X. snd (answer z h ps i) = None \<and> result_ch l' = [fst (answer z h ps i)])"
      using rc by (auto simp: r' f')
    then have "any_locals z h ps (insert j X) b l'"
      unfolding any_locals_def using X' cnt cl nb m by (simp add: cl')
    then show ?thesis by (simp only: l'_def)
  qed
qed

lemma any_locals_close:
  assumes "any_locals z h ps X False l" and "wg l = 0"
  shows "any_locals z h ps X True (l\<lparr>closed := True\<rparr>)"
proof -
  from assms have "X \<subseteq> {..<length ps}" "card X = length ps"
    unfolding any_locals_def by simp_all
  then have "X = {..<length ps}" by (rule card_all)
  with assms show ?thesis unfolding any_locals_def by simp
qed

lemma any_locals_enabled:
  assumes "any_locals z h ps {..<length ps} b l"
  shows "join CAny False z l \<noteq> None \<or> (CAny = CAny \<and> \<not> b \<and> wg l = 0)"
proof (cases "result_ch l = [] \<and> \<not> closed l")
  case True
  with assms show ?thesis unfolding any_locals_def by simp
next
  case False
  then show ?thesis by (cases "result_ch l") auto
qed


text \<open>
  \<open>Any\<close> is called on distinct promises of the heap that no goroutine settles any more;
  the new promise is \<open>n\<close>. Under every schedule it is \<open>Pending\<close>, or \<open>Fulfilled\<close>
  with the value of an input that succeeded, or \<open>Rejected\<close>, and then every input has
  failed and the error is the aggregate of the errors of all inputs, in the order in which
  their goroutines finished. The value is the first one delivered: a send on the full
  channel \<open>result\<close> leaves it as it is. When every input has settled with its completion
  signal in \<open>done\<close>, from each state reached some further schedule settles the promise
  and sends its completion signal.
\<close>

lemma any_first_or_aggregate:
  assumes "distinct ps" and "\<forall>p\<in>set ps. p < n"
  shows "fst (Any z ps (with_heap h n)) = n \<and>
    (state (heap (run (snd (Any z ps (with_heap h n))) sched) n) = Pending \<or>
     (state (heap (run (snd (Any z ps (with_heap h n))) sched) n) = Fulfilled \<and>
      (\<exists>p\<in>set ps. snd (stored z (h p)) = None \<and>
         value' (heap (run (snd (Any z ps (with_heap h n))) sched) n) = fst (stored z (h p)))) \<or>
     (state (heap (run (snd (Any z ps (with_heap h n))) sched) n) = Rejected \<and>
      (\<forall>p\<in>set ps. snd (stored z (h p)) \<noteq> None) \<and>
      (\<exists>es. error (heap (run (snd (Any z ps (with_heap h n))) sched) n) = Some (AllRejected es) \<and>
         mset es = mset (map (\<lambda>p. the (snd (stored z (h p)))) ps)))) \<and>
    (result_ch l \<noteq> [] \<longrightarrow> result_ch (deliver CAny i v e z l) = result_ch l) \<and>
    ((\<forall>p\<in>set ps. done' (h p) \<noteq> []) \<longrightarrow>
     (\<exists>sched'. state (heap (run (run (snd (Any z ps (with_heap h n))) sched) sched') n) \<noteq> Pending \<and>
        done' (heap (run (run (snd (Any z ps (with_heap h n))) sched) sched') n) = [True]))"
proof -
  let ?L = "any_locals z h ps"
  let ?R = "any_result z h ps"
  let ?s = "run (snd (Any z ps (with_heap h n))) sched"
  have b: "\<forall>p\<in>set ps. p \<noteq> n" using assms(2) by auto
  have A0: "?L {} (CAny \<noteq> CAny) (new_locals (length ps) z)"
    by (simp add: any_locals_def new_locals_def failed_def)
  have A1: "\<And>X b l c v e l'. ?L X b l \<Longrightarrow> join CAny c z l = Some ((v, e), l') \<Longrightarrow> ?R v e"
    by (rule any_locals_join)
  have A2: "\<And>X b l j. ?L X b l \<Longrightarrow> j < length ps \<Longrightarrow> j \<notin> X \<Longrightarrow> done' (h (ps ! j)) \<noteq> [] \<Longrightarrow>
      ?L (insert j X) b (deliver CAny j (fst (answer z h ps j)) (snd (answer z h ps j)) z l)"
    by (rule any_locals_deliver)
  have A3: "\<And>X l. ?L X False l \<Longrightarrow> wg l = 0 \<Longrightarrow> ?L X True (l\<lparr>closed := True\<rparr>)"
    by (rule any_locals_close)
  have A4: "\<And>b l. ?L {..<length ps} b l \<Longrightarrow>
      join CAny False z l \<noteq> None \<or> (CAny = CAny \<and> \<not> b \<and> wg l = 0)"
    by (rule any_locals_enabled)
  have I: "fan_inv ?L ?R CAny z z h n ps ?s"
    unfolding Any_def
    by (rule fan_reach [where L = "?L" and R = "?R", OF assms(1) b A0 A1 A2 A3])
  have n: "fst (Any z ps (with_heap h n)) = n"
    by (simp add: Any_def NewPromise_def with_heap_def)
  have S1: "state (heap ?s n) = Pending \<or>
     (state (heap ?s n) = Fulfilled \<and>
      (\<exists>p\<in>set ps. snd (stored z (h p)) = None \<and> value' (heap ?s n) = fst (stored z (h p)))) \<or>
     (state (heap ?s n) = Rejected \<and>
      (\<forall>p\<in>set ps. snd (stored z (h p)) \<noteq> None) \<and>
      (\<exists>es. error (heap ?s n) = Some (AllRejected es) \<and>
         mset es = mset (map (\<lambda>p. the (snd (stored z (h p)))) ps)))"
    using fan_safe [OF I]
  proof
    assume "state (heap ?s n) = Pending"
    then show ?thesis by simp
  next
    assume "\<exists>v e. ?R v e \<and> core (heap ?s n) = core (signalled z v e)"
    then obtain v e where R: "?R v e" and c: "core (heap ?s n) = core (signalled z v e)"
      by blast
    from R show ?thesis unfolding any_result_def
    proof (elim disjE conjE exE)
      assume e: "e = None" and p: "\<exists>p\<in>set ps. snd (stored z (h p)) = None \<and> v = fst (stored z (h p))"
      from c e have "core (heap ?s n) = (Fulfilled, v, None)"
        by (simp add: core_signalled)
      then have "state (heap ?s n) = Fulfilled" "value' (heap ?s n) = v"
        by (simp_all add: core_def)
      with p show ?thesis by simp
    next
      fix es
      assume a: "\<forall>p\<in>set ps. snd (stored z (h p)) \<noteq> None"
        and e: "e = Some (AllRejected es)"
        and m: "mset es = mset (map (\<lambda>p. the (snd (stored z (h p)))) ps)"
      from c e have "core (heap ?s n) = (Rejected, z, Some (AllRejected es))"
        by (simp add: core_signalled)
      then have "state (heap ?s n) = Rejected" "error (heap ?s n) = Some (AllRejected es)"
        by (simp_all add: core_def)
      with a m show ?thesis by blast
    qed
  qed
  have S2: "result_ch l \<noteq> [] \<longrightarrow> result_ch (deliver CAny i v e z l) = result_ch l"
    by (cases e) simp_all
  have S3: "(\<forall>p\<in>set ps. done' (h p) \<noteq> []) \<longrightarrow>
     (\<exists>sched'. state (heap (run ?s sched') n) \<noteq> Pending \<and> done' (heap (run ?s sched') n) = [True])"
  proof
    assume "\<forall>p\<in>set ps. done' (h p) \<noteq> []"
    then have tok: "\<forall>i<length ps. done' (h (ps ! i)) \<noteq> []" by simp
    have "\<exists>sched' v e. ?R v e \<and> heap (run ?s sched') n = signalled z v e"
      by (rule fan_live [where L = "?L" and R = "?R" and k = CAny, OF assms(1) b tok])
         (fact A0, fact A1, fact A2, fact A3, fact A4, fact I)
    then obtain sched' v e where h: "heap (run ?s sched') n = signalled z v e" by blast
    have "state (signalled z v e) \<noteq> Pending \<and> done' (signalled z v e) = [True]"
      by (cases e) (simp_all add: signalled_def published_def settled_as_def pending_def)
    with h show "\<exists>sched'. state (heap (run ?s sched') n) \<noteq> Pending \<and>
        done' (heap (run ?s sched') n) = [True]"
      by metis
  qed
  show ?thesis by (rule conjI [OF n conjI [OF S1 conjI [OF S2 S3]]])
qed

lemma any_first_or_aggregate_example:
  "distinct [0, 1 :: nat] \<and>
   (state (heap (run (snd (Any (Val 0) [0, 1]
       (with_heap (\<lambda>p. if p = 0 then rejected (Val (0::nat)) (Some (Custom ''e1''))
                       else rejected (Val 0) (Some (Custom ''e2''))) 2)))
       [Run 0 False, Run 2 False, Run 2 False, Run 1 False]) 2) = Pending \<or>
    (state (heap (run (snd (Any (Val 0) [0, 1]
       (with_heap (\<lambda>p. if p = 0 then rejected (Val (0::nat)) (Some (Custom ''e1''))
                       else rejected (Val 0) (Some (Custom ''e2''))) 2)))
       [Run 0 False, Run 2 False, Run 2 False, Run 1 False]) 2) = Rejected \<and>
     (\<exists>es. error (heap (run (snd (Any (Val 0) [0, 1]
       (with_heap (\<lambda>p. if p = 0 then rejected (Val (0::nat)) (Some (Custom ''e1''))
                       else rejected (Val 0) (Some (Custom ''e2''))) 2)))
       [Run 0 False, Run 2 False, Run 2 False, Run 1 False]) 2) = Some (AllRejected es) \<and>
       mset es = {#Custom ''e1'', Custom ''e2''#}))) \<and>
   (state (heap (run (snd (Any (Val 0) [0, 1]
       (with_heap (\<lambda>p. if p = 0 then rejected (Val (0::nat)) (Some (Custom ''e1''))
                       else resolved (Val 7)) 2)))
       [Run 0 False, Run 2 False, Run 2 False, Run 0 False]) 2) = Pending \<or>
    (state (heap (run (snd (Any (Val 0) [0, 1]
       (with_heap (\<lambda>p. if p = 0 then rejected (Val (0::nat)) (Some (Custom ''e1''))
                       else resolved (Val 7)) 2)))
       [Run 0 False, Run 2 False, Run 2 False, Run 0 False]) 2) = Fulfilled \<and>
     value' (heap (run (snd (Any (Val 0) [0, 1]
       (with_heap (\<lambda>p. if p = 0 then rejected (Val (0::nat)) (Some (Custom ''e1''))
                       else resolved (Val 7)) 2)))
       [Run 0 False, Run 2 False, Run 2 False, Run 0 False]) 2) = Val 7))"
  using any_first_or_aggregate [of "[0, 1]" 2 "Val 0"
      "\<lambda>p. if p = 0 then rejected (Val (0::nat)) (Some (Custom ''e1''))
           else rejected (Val 0) (Some (Custom ''e2''))"
      "[Run 0 False, Run 2 False, Run 2 False, Run 1 False]"]
    any_first_or_aggregate [of "[0, 1]" 2 "Val 0"
      "\<lambda>p. if p = 0 then rejected (Val (0::nat)) (Some (Custom ''e1'')) else resolved (Val 7)"
      "[Run 0 False, Run 2 False, Run 2 False, Run 0 False]"]
  by (simp add: stored_def resolved_def rejected_def)

subsection \<open>Combinators over a promise with its completion signal taken\<close>

lemma join_new_locals: "join k c z (new_locals (Suc n) z) = None"
  by (cases k) (simp_all add: new_locals_def)

lemma allsettled_after_await_init:
  "after_await_inv CAllSettled (Records []) z v (allsettled_after_await z v)"
  by (simp add: after_await_inv_def allsettled_after_await_def Resolve_def go_def AllSettled_def
      NewPromise_def spawn_def init_def Await_def upd_def stored_def resolved_def Let_def)

lemma any_after_await_init:
  "after_await_inv CAny z z v (any_after_await z v)"
  by (simp add: after_await_inv_def any_after_await_def Resolve_def go_def Any_def
      NewPromise_def spawn_def init_def Await_def upd_def stored_def resolved_def Let_def)

lemma after_await_step:
  assumes I: "after_await_inv k zk z v s"
  shows "after_await_inv k zk z v (step a s)"
proof (cases a)
  case Tick
  with I show ?thesis by (simp add: after_await_inv_def)
next
  case (Run t c)
  consider "t = 0" | "t = 1" | "t = 2" | "t = 3" | "4 \<le> t" by linarith
  then show ?thesis
  proof cases
    case 1
    with I Run show ?thesis by (simp add: after_await_inv_def)
  next
    case 2
    with I Run show ?thesis
      unfolding after_await_inv_def
      by (elim conjE disjE) (simp_all add: spawn_def join_new_locals [of k c z 0, simplified])
  next
    case 3
    with I Run show ?thesis
      unfolding after_await_inv_def
      by (elim conjE disjE) (simp_all add: Await_def resolved_def)
  next
    case 4
    with I Run show ?thesis
      unfolding after_await_inv_def
      by (elim conjE disjE) (simp_all add: new_locals_def)
  next
    case 5
    with I Run show ?thesis by (simp add: after_await_inv_def)
  qed
qed

lemma allsettled_after_await_reach:
  "after_await_inv CAllSettled (Records []) z v (run (allsettled_after_await z v) sched)"
  by (rule run_invariant [where I = "after_await_inv CAllSettled (Records []) z v"])
     (auto intro: allsettled_after_await_init after_await_step)

lemma any_after_await_reach:
  "after_await_inv CAny z z v (run (any_after_await z v) sched)"
  by (rule run_invariant [where I = "after_await_inv CAny z z v"])
     (auto intro: any_after_await_init after_await_step)

lemma deliver_wg:
  "k = CAllSettled \<or> (k = CAny \<and> e \<noteq> None) \<Longrightarrow>
   wg (deliver k i v e z l) = wg l - 1 \<and> result_ch (deliver k i v e z l) = result_ch l \<and>
   closed (deliver k i v e z l) = closed l"
  by (cases k; cases e) auto

lemma join_waiting:
  "k = CAllSettled \<or> k = CAny \<Longrightarrow> 0 < wg l \<Longrightarrow> result_ch l = [] \<Longrightarrow> \<not> closed l \<Longrightarrow>
   join k c z l = None"
  by (cases k) auto

lemma allsettled_twice_init:
  "twice_inv CAllSettled (Records []) z (resolved v) v None (allsettled_twice z v)"
  by (simp add: twice_inv_def allsettled_twice_def Resolve_def AllSettled_def
      NewPromise_def spawn_def init_def)

lemma any_twice_init:
  "twice_inv CAny z z (rejected z (Some e)) z (Some e) (any_twice z e)"
  by (simp add: twice_inv_def any_twice_def Reject_def Any_def
      NewPromise_def spawn_def init_def)

lemma twice_step:
  assumes I: "twice_inv k zk z P v e s" and k: "k = CAllSettled \<or> (k = CAny \<and> e \<noteq> None)"
    and P: "done' P = [True]" "stored z P = (v, e)"
  shows "twice_inv k zk z P v e (step a s)"
proof (cases a)
  case Tick
  with I show ?thesis by (simp add: twice_inv_def past_await_def)
next
  case (Run t c)
  from k have k': "k = CAllSettled \<or> k = CAny" by blast
  note D = deliver_wg [OF k]
  consider "t = 0" | "t = 1" | "t = 2" | "t = 3" | "4 \<le> t" by linarith
  then show ?thesis
  proof cases
    case 1
    with I Run show ?thesis
      unfolding twice_inv_def past_await_def
      by (elim conjE disjE)
         (simp_all add: spawn_def new_locals_def join_waiting [OF k'])
  next
    case 2
    with I Run P show ?thesis
      unfolding twice_inv_def past_await_def
      by (elim conjE disjE) (simp_all add: Await_def upd_def updf_def D)
  next
    case 3
    with I Run P show ?thesis
      unfolding twice_inv_def past_await_def
      by (elim conjE disjE) (simp_all add: Await_def upd_def updf_def D)
  next
    case 4
    with I Run show ?thesis
      unfolding twice_inv_def past_await_def
      by (elim conjE disjE) (simp_all split: if_splits)
  next
    case 5
    with I Run show ?thesis by (simp add: twice_inv_def past_await_def)
  qed
qed

lemma allsettled_twice_reach:
  "twice_inv CAllSettled (Records []) z (resolved v) v None (run (allsettled_twice z v) sched)"
proof (rule run_invariant [where I = "twice_inv CAllSettled (Records []) z (resolved v) v None"])
  show "twice_inv CAllSettled (Records []) z (resolved v) v None (allsettled_twice z v)"
    by (rule allsettled_twice_init)
next
  fix s :: "'a sys" and a
  assume "twice_inv CAllSettled (Records []) z (resolved v) v None s"
  then show "twice_inv CAllSettled (Records []) z (resolved v) v None (step a s)"
    by (rule twice_step) (simp_all add: resolved_def stored_def)
qed

lemma any_twice_reach:
  "twice_inv CAny z z (rejected z (Some e)) z (Some e) (run (any_twice z e) sched)"
proof (rule run_invariant [where I = "twice_inv CAny z z (rejected z (Some e)) z (Some e)"])
  show "twice_inv CAny z z (rejected z (Some e)) z (Some e) (any_twice z e)"
    by (rule any_twice_init)
next
  fix s :: "'a sys" and a
  assume "twice_inv CAny z z (rejected z (Some e)) z (Some e) s"
  then show "twice_inv CAny z z (rejected z (Some e)) z (Some e) (step a s)"
    by (rule twice_step) (simp_all add: rejected_def stored_def)
qed

text \<open>
  C7 (the code departs from it). \<open>p := Resolve(v)\<close> is settled from the start. In the
  first program a caller's \<open>p.Await()\<close> has returned \<open>(v, nil)\<close> before
  \<open>AllSettled(p)\<close> is called; in the second the call is \<open>AllSettled(p, p)\<close>. In both,
  under every schedule and however much time passes, the input is \<open>Fulfilled\<close> with \<open>v\<close>
  and the promise of \<open>AllSettled\<close> stays \<open>Pending\<close>: a goroutine started by
  \<open>AllSettled\<close> is blocked in \<open>p.Await()\<close> on the empty channel \<open>p.done\<close>, so
  \<open>wg.Wait()\<close> never returns.
\<close>

theorem allsettled_starves:
  "fst (Resolve v init) = 0 \<and> fst (AllSettled z [0, 0] (snd (Resolve v init))) = 1 \<and>
   threads (run (allsettled_after_await z v) sched) 0 = Returned v None \<and>
   core (heap (run (allsettled_after_await z v) sched) 0) = (Fulfilled, v, None) \<and>
   state (heap (run (allsettled_after_await z v) sched) 1) = Pending \<and>
   core (heap (run (allsettled_twice z v) sched) 0) = (Fulfilled, v, None) \<and>
   state (heap (run (allsettled_twice z v) sched) 1) = Pending"
proof -
  have A: "fst (Resolve v init) = 0 \<and> fst (AllSettled z [0, 0] (snd (Resolve v init))) = 1"
    by (simp add: Resolve_def AllSettled_def NewPromise_def init_def)
  have B: "threads (run (allsettled_after_await z v) sched) 0 = Returned v None \<and>
     core (heap (run (allsettled_after_await z v) sched) 0) = (Fulfilled, v, None) \<and>
     state (heap (run (allsettled_after_await z v) sched) 1) = Pending"
    using allsettled_after_await_reach [of z v sched] unfolding after_await_inv_def
    by (elim conjE) (simp add: core_def resolved_def pending_def)
  have C: "core (heap (run (allsettled_twice z v) sched) 0) = (Fulfilled, v, None) \<and>
     state (heap (run (allsettled_twice z v) sched) 1) = Pending"
    using allsettled_twice_reach [of z v sched] unfolding twice_inv_def
    by (elim conjE disjE) (simp_all add: core_def resolved_def pending_def)
  from A B C show ?thesis by simp
qed

text \<open>
  C6 (the code departs from it). In the first program \<open>p := Resolve(v)\<close> is settled and a
  caller's \<open>p.Await()\<close> has returned \<open>(v, nil)\<close> before \<open>Any(p)\<close> is called: under
  every schedule the input is \<open>Fulfilled\<close> with \<open>v\<close> and the promise of \<open>Any\<close> stays
  \<open>Pending\<close>. In the second program \<open>q := Reject(e)\<close> and the call is \<open>Any(q, q)\<close>:
  under every schedule the input is \<open>Rejected\<close> with \<open>e\<close> and the promise of \<open>Any\<close>
  stays \<open>Pending\<close>. A goroutine started by \<open>Any\<close> is blocked in \<open>Await\<close> on the empty
  channel \<open>done\<close> of the input, it never sends on \<open>result\<close>, and the closer never gets
  past \<open>wg.Wait()\<close>.
\<close>

theorem any_starves:
  "fst (Reject z (Some e) init) = 0 \<and> fst (Any z [0, 0] (snd (Reject z (Some e) init))) = 1 \<and>
   threads (run (any_after_await z v) sched) 0 = Returned v None \<and>
   core (heap (run (any_after_await z v) sched) 0) = (Fulfilled, v, None) \<and>
   state (heap (run (any_after_await z v) sched) 1) = Pending \<and>
   core (heap (run (any_twice z e) sched) 0) = (Rejected, z, Some e) \<and>
   state (heap (run (any_twice z e) sched) 1) = Pending"
proof -
  have A: "fst (Reject z (Some e) init) = 0 \<and>
      fst (Any z [0, 0] (snd (Reject z (Some e) init))) = 1"
    by (simp add: Reject_def Any_def NewPromise_def init_def)
  have B: "threads (run (any_after_await z v) sched) 0 = Returned v None \<and>
     core (heap (run (any_after_await z v) sched) 0) = (Fulfilled, v, None) \<and>
     state (heap (run (any_after_await z v) sched) 1) = Pending"
    using any_after_await_reach [of z v sched] unfolding after_await_inv_def
    by (elim conjE) (simp add: core_def resolved_def pending_def)
  have C: "core (heap (run (any_twice z e) sched) 0) = (Rejected, z, Some e) \<and>
     state (heap (run (any_twice z e) sched) 1) = Pending"
    using any_twice_reach [of z e sched] unfolding twice_inv_def
    by (elim conjE disjE) (simp_all add: core_def rejected_def pending_def)
  from A B C show ?thesis by simp
qed

end
